theory Spec2Isabelle
  imports Main "HOL-Library.AList"
begin

section \<open>Objects and references\<close>

text \<open>
  The store of \<^verbatim>\<open>undux/src/index.ts\<close> works on JavaScript objects that are shared by
  reference: the state object handed to \<^verbatim>\<open>createStore\<close>, the state objects built by the
  setters, the snapshots and the setter closures. Objects therefore live in a heap, and
  every object created by the code gets a reference that nothing used before.

  A field name is a string. A plain object is the list of its own properties, in
  insertion order, with the flag that \<^verbatim>\<open>Object.freeze\<close> sets. A property list never
  holds a name twice; \<open>proper\<close> says so.
\<close>

type_synonym key = string
type_synonym ref = nat

datatype error = TypeError

record 'v js_object =
  props :: "(key \<times> 'v) list"
  frozen :: bool

definition proper :: "'v js_object \<Rightarrow> bool" where
  "proper ob = distinct (map fst (props ob))"

text \<open>
  \<^verbatim>\<open>obj[key]\<close> for the own properties: the value of the property, \<open>None\<close> when the
  object has no own property of that name.
\<close>

definition prop_read :: "'v js_object \<Rightarrow> key \<Rightarrow> 'v option" where
  "prop_read ob k = map_of (props ob) k"

text \<open>\<^verbatim>\<open>Object.freeze(obj)\<close> marks the object itself and returns the same reference.\<close>

definition Object_freeze :: "ref \<Rightarrow> (ref \<Rightarrow> 'v js_object) \<Rightarrow> ref \<times> (ref \<Rightarrow> 'v js_object)" where
  "Object_freeze r h = (r, h(r := (h r)\<lparr>frozen := True\<rparr>))"

text \<open>
  The names that every ordinary object inherits from \<^verbatim>\<open>Object.prototype\<close>, and
  \<^verbatim>\<open>key in obj\<close> for an ordinary object with the given own keys: the operator also
  finds the inherited names.
\<close>

definition Object_prototype_names :: "key list" where
  "Object_prototype_names =
     [''constructor'', ''__defineGetter__'', ''__defineSetter__'', ''hasOwnProperty'',
      ''__lookupGetter__'', ''__lookupSetter__'', ''isPrototypeOf'', ''propertyIsEnumerable'',
      ''toString'', ''valueOf'', ''__proto__'', ''toLocaleString'']"

definition key_in :: "key \<Rightarrow> key set \<Rightarrow> bool" where
  "key_in k own \<longleftrightarrow> k \<in> own \<or> k \<in> set Object_prototype_names"

text \<open>
  \<^verbatim>\<open>Object.assign(target, source)\<close> on property lists: every own property of the source
  is written to the target, in the source's order. The write is an ordinary assignment,
  so a property named \<^verbatim>\<open>__proto__\<close> goes to the accessor inherited from
  \<^verbatim>\<open>Object.prototype\<close> and the target gets no own property of that name.
\<close>

definition Object_assign :: "(key \<times> 'v) list \<Rightarrow> (key \<times> 'v) list \<Rightarrow> (key \<times> 'v) list" where
  "Object_assign target source =
     fold (\<lambda>(k, v) t. if k = ''__proto__'' then t else AList.update k v t) source target"

text \<open>
  \<^verbatim>\<open>obj[key] = value\<close> as written by code outside the store. On a frozen object the
  assignment changes nothing: it is ignored in sloppy mode and raises in strict mode.
\<close>

definition assign_prop ::
  "bool \<Rightarrow> ref \<Rightarrow> key \<Rightarrow> 'v \<Rightarrow> (ref \<Rightarrow> 'v js_object) \<Rightarrow> error + (ref \<Rightarrow> 'v js_object)" where
  "assign_prop strict r k v h =
     (if frozen (h r) then (if strict then Inl TypeError else Inr h)
      else Inr (h(r := (h r)\<lparr>props := AList.update k v (props (h r))\<rparr>)))"

section \<open>The store\<close>

text \<open>
  A \<^verbatim>\<open>StoreSnapshot\<close> never changes after its construction: it is its own reference and
  the reference of its private \<^verbatim>\<open>state\<close>. A world holds one \<^verbatim>\<open>StoreDefinition\<close>, which
  every snapshot's \<^verbatim>\<open>storeDefinition\<close> field designates.
\<close>

record snapshot =
  snap_ref :: ref
  state :: ref

text \<open>A cached setter: the closure's own reference and the \<^verbatim>\<open>key\<close> it captured.\<close>

record closure =
  fn_ref :: ref
  fn_key :: key

text \<open>The event \<^verbatim>\<open>{key, previousValue, value}\<close> of the all-fields channel.\<close>

record 'v change =
  change_key :: key
  previousValue :: "'v option"
  change_value :: 'v

datatype 'v message = Value 'v | Change "'v change"

text \<open>
  One call of \<^verbatim>\<open>emit\<close> that an emitter lets through: the emitter, the topic, the
  message, and what the store's current state holds at that moment.
\<close>

record 'v emission =
  via :: ref
  topic :: key
  message :: "'v message"
  visible :: "(key \<times> 'v) list"

text \<open>The observable that \<^verbatim>\<open>on(key)\<close> (a topic) or \<^verbatim>\<open>all()\<close> (no topic) of an emitter gives.\<close>

datatype stream = Stream ref "key option"

record options =
  isDevMode :: bool

definition DEFAULT_OPTIONS :: options where
  "DEFAULT_OPTIONS = \<lparr>isDevMode = False\<rparr>"

text \<open>
  The heap with its allocation mark, the fields of the \<^verbatim>\<open>StoreDefinition\<close>
  (\<open>storeSnapshot\<close>, \<open>setters\<close>, the two emitters and the options they were built with),
  the emissions so far and the lines written by \<^verbatim>\<open>console.error\<close>.
\<close>

record 'v world =
  heap :: "ref \<Rightarrow> 'v js_object"
  next_ref :: ref
  storeSnapshot :: snapshot
  setters :: "(key \<times> closure) list"
  emitter :: ref
  alls :: ref
  emitterOptions :: options
  trace :: "'v emission list"
  console :: "string list"

definition CYCLE_ERROR_MESSAGE :: string where
  "CYCLE_ERROR_MESSAGE =
     ''[undux] Error: Cyclical dependency detected. ''
     @ ''This may cause a stack overflow unless you fix it. '' @ [CHR 0x0A]
     @ ''The culprit is the following sequence of .set calls, ''
     @ ''called from one or more of your Undux Effects: ''"

fun join :: "string \<Rightarrow> string list \<Rightarrow> string" where
  "join sep [] = []"
| "join sep [x] = x"
| "join sep (x # y # ys) = x @ sep @ join sep (y # ys)"

text \<open>\<^verbatim>\<open>emitterOptions.onCycle\<close>: one line on \<^verbatim>\<open>console.error\<close>.\<close>

definition onCycle :: "key list \<Rightarrow> 'v world \<Rightarrow> 'v world" where
  "onCycle chain w = w\<lparr>console := console w @ [CYCLE_ERROR_MESSAGE @ join '' -> '' chain]\<rparr>"

subsection \<open>StoreSnapshot\<close>

definition StoreSnapshot_get :: "snapshot \<Rightarrow> key \<Rightarrow> 'v world \<Rightarrow> 'v option" where
  "StoreSnapshot_get s k w = prop_read (heap w (state s)) k"

definition StoreSnapshot_getState :: "snapshot \<Rightarrow> 'v world \<Rightarrow> ref \<times> 'v world" where
  "StoreSnapshot_getState s w =
     (let (r, h) = Object_freeze (state s) (heap w) in (r, w\<lparr>heap := h\<rparr>))"

subsection \<open>StoreDefinition\<close>

text \<open>
  Modelled from the spec: \<^verbatim>\<open>mapValues\<close> of \<^verbatim>\<open>./utils\<close>, whose source is not at hand. The
  setter table has one entry per field of the state, built once; \<open>f\<close> gets the reference
  at which its result is allocated, the field's value and the field's name.
\<close>

fun mapValues :: "(key \<times> 'a) list \<Rightarrow> (ref \<Rightarrow> 'a \<Rightarrow> key \<Rightarrow> 'b) \<Rightarrow> ref \<Rightarrow> (key \<times> 'b) list" where
  "mapValues [] f r = []"
| "mapValues ((k, v) # ps) f r = (k, f r v k) # mapValues ps f (Suc r)"

text \<open>
  \<^verbatim>\<open>new StoreDefinition(state, options)\<close>, in a fresh world that holds the caller's state
  object at reference 0. The constructor allocates the two emitters, the first
  snapshot, which keeps the caller's object itself, and one closure per field.
\<close>

definition createStore :: "(key \<times> 'v) list \<Rightarrow> options \<Rightarrow> 'v world" where
  "createStore initialState opts =
     \<lparr>heap = (\<lambda>_. \<lparr>props = [], frozen = False\<rparr>)(0 := \<lparr>props = initialState, frozen = False\<rparr>),
      next_ref = 4 + length initialState,
      storeSnapshot = \<lparr>snap_ref = 3, state = 0\<rparr>,
      setters = mapValues initialState (\<lambda>r v k. \<lparr>fn_ref = r, fn_key = k\<rparr>) 4,
      emitter = 2,
      alls = 1,
      emitterOptions = opts,
      trace = [],
      console = []\<rparr>"

definition StoreDefinition_on :: "key \<Rightarrow> 'v world \<Rightarrow> stream" where
  "StoreDefinition_on k w = Stream (emitter w) (Some k)"

definition StoreDefinition_onAll :: "'v world \<Rightarrow> stream" where
  "StoreDefinition_onAll w = Stream (alls w) None"

definition StoreDefinition_get :: "key \<Rightarrow> 'v world \<Rightarrow> 'v option" where
  "StoreDefinition_get k w = StoreSnapshot_get (storeSnapshot w) k w"

text \<open>\<^verbatim>\<open>this.setters[key]\<close>, \<open>None\<close> for \<^verbatim>\<open>undefined\<close>.\<close>

definition StoreDefinition_set :: "key \<Rightarrow> 'v world \<Rightarrow> closure option" where
  "StoreDefinition_set k w = map_of (setters w) k"

definition getCurrentSnapshot :: "'v world \<Rightarrow> snapshot" where
  "getCurrentSnapshot w = storeSnapshot w"

definition toStore :: "'v world \<Rightarrow> snapshot" where
  "toStore w = storeSnapshot w"

definition StoreDefinition_getState :: "'v world \<Rightarrow> ref \<times> 'v world" where
  "StoreDefinition_getState w = StoreSnapshot_getState (storeSnapshot w) w"

definition StoreSnapshot_set :: "snapshot \<Rightarrow> key \<Rightarrow> 'v world \<Rightarrow> closure option" where
  "StoreSnapshot_set s k w = StoreDefinition_set k w"

definition StoreSnapshot_on :: "snapshot \<Rightarrow> key \<Rightarrow> 'v world \<Rightarrow> stream" where
  "StoreSnapshot_on s k w = StoreDefinition_on k w"

definition StoreSnapshot_onAll :: "snapshot \<Rightarrow> 'v world \<Rightarrow> stream" where
  "StoreSnapshot_onAll s w = StoreDefinition_onAll w"

subsection \<open>The cached setter\<close>

text \<open>
  The first two statements of the closure: read the previous value, then put a new
  snapshot in place. \<^verbatim>\<open>getState()\<close> freezes the current state object; the new state
  object is \<^verbatim>\<open>Object.assign({}, frozen, {[key]: value})\<close>.
\<close>

definition setter_swap :: "key \<Rightarrow> 'v \<Rightarrow> 'v world \<Rightarrow> 'v option \<times> 'v world" where
  "setter_swap k v w =
     (let previousValue = StoreSnapshot_get (storeSnapshot w) k w;
          (st, w1) = StoreSnapshot_getState (storeSnapshot w) w;
          ob = next_ref w1;
          w2 = w1\<lparr>heap := (heap w1)
                  (ob := \<lparr>props = Object_assign (Object_assign [] (props (heap w1 st))) [(k, v)],
                          frozen = False\<rparr>),
                next_ref := Suc ob\<rparr>;
          sn = next_ref w2;
          w3 = w2\<lparr>storeSnapshot := \<lparr>snap_ref = sn, state = ob\<rparr>, next_ref := Suc sn\<rparr>
      in (previousValue, w3))"

text \<open>
  The closure goes on with \<^verbatim>\<open>this.emitter.emit(key, value)\<close> and
  \<^verbatim>\<open>this.alls.emit(key, {key, previousValue, value})\<close>, which deliver to the subscribers
  before they return; \<open>invoke\<close> below is the whole closure. \<open>record_emission\<close> is the
  entry that an emitter adds to the trace when it lets an emission through.
\<close>

definition record_emission :: "ref \<Rightarrow> key \<Rightarrow> 'v message \<Rightarrow> 'v world \<Rightarrow> 'v world" where
  "record_emission e k m w =
     w\<lparr>trace := trace w @
         [\<lparr>via = e, topic = k, message = m,
           visible = props (heap w (state (storeSnapshot w)))\<rparr>]\<rparr>"

subsection \<open>StoreSnapshotWrapper\<close>

text \<open>
  The two callbacks belong to the consumer; they act on the consumer's own record of
  accesses, of type \<open>'c\<close>. \<open>subscribedFields\<close> is \<open>None\<close> for \<^verbatim>\<open>null\<close>, otherwise the own
  keys of an ordinary object, and \<^verbatim>\<open>key in this.subscribedFields\<close> is \<open>key_in\<close>.
\<close>

record 'c wrapper =
  snapshot :: snapshot
  onGetOrSet :: "key \<Rightarrow> 'c \<Rightarrow> 'c"
  onGetAll :: "'c \<Rightarrow> 'c"
  subscribedFields :: "key set option"
  isSubscribedToAllFields :: bool

definition StoreSnapshotWrapper_get :: "'c wrapper \<Rightarrow> key \<Rightarrow> 'c \<Rightarrow> 'v world \<Rightarrow> 'c \<times> 'v option" where
  "StoreSnapshotWrapper_get wr k c w =
     (if \<not> isSubscribedToAllFields wr
         \<and> (case subscribedFields wr of None \<Rightarrow> False | Some recorded \<Rightarrow> \<not> key_in k recorded)
      then (onGetOrSet wr k c, StoreDefinition_get k w)
      else (c, StoreSnapshot_get (snapshot wr) k w))"

definition StoreSnapshotWrapper_set :: "'c wrapper \<Rightarrow> key \<Rightarrow> 'c \<Rightarrow> 'v world \<Rightarrow> 'c \<times> closure option" where
  "StoreSnapshotWrapper_set wr k c w = (onGetOrSet wr k c, StoreSnapshot_set (snapshot wr) k w)"

definition StoreSnapshotWrapper_on :: "'c wrapper \<Rightarrow> key \<Rightarrow> 'c \<Rightarrow> 'v world \<Rightarrow> 'c \<times> stream" where
  "StoreSnapshotWrapper_on wr k c w = (c, StoreSnapshot_on (snapshot wr) k w)"

definition StoreSnapshotWrapper_onAll :: "'c wrapper \<Rightarrow> 'c \<Rightarrow> 'v world \<Rightarrow> 'c \<times> stream" where
  "StoreSnapshotWrapper_onAll wr c w = (c, StoreSnapshot_onAll (snapshot wr) w)"

definition StoreSnapshotWrapper_getState :: "'c wrapper \<Rightarrow> 'c \<Rightarrow> 'v world \<Rightarrow> 'c \<times> ref \<times> 'v world" where
  "StoreSnapshotWrapper_getState wr c w = (onGetAll wr c, StoreSnapshot_getState (snapshot wr) w)"

section \<open>Invariant of the worlds the code builds\<close>

text \<open>
  Everything the store points to was allocated, the current state object holds no name
  twice, the two emitters are two objects, and every cached closure sits under the key
  it captured.
\<close>

definition well_formed :: "'v world \<Rightarrow> bool" where
  "well_formed w \<longleftrightarrow>
     state (storeSnapshot w) < next_ref w
     \<and> snap_ref (storeSnapshot w) < next_ref w
     \<and> proper (heap w (state (storeSnapshot w)))
     \<and> emitter w \<noteq> alls w
     \<and> list_all (\<lambda>(k, f). fn_key f = k \<and> fn_ref f < next_ref w) (setters w)"

text \<open>The state object that the closure for \<open>k\<close> builds from the current one.\<close>

definition new_state :: "key \<Rightarrow> 'v \<Rightarrow> 'v world \<Rightarrow> 'v js_object" where
  "new_state k v w =
     \<lparr>props = Object_assign (Object_assign [] (props (heap w (state (storeSnapshot w))))) [(k, v)],
      frozen = False\<rparr>"

section \<open>The cached setter with its subscribers\<close>

text \<open>
  A subscriber is the list of \<^verbatim>\<open>set\<close> calls its handler makes, given what the current
  state holds and the message it receives. The subscriptions are those made before the
  call: per field, in subscription order, and on the all-fields channel.

  A run ends with an exception, with a new world, or it exhausts the depth it may nest
  setter calls to (\<open>None\<close>).
\<close>

type_synonym 'v outcome = "(error + 'v world) option"

type_synonym 'v handler = "(key \<times> 'v) list \<Rightarrow> 'v message \<Rightarrow> (key \<times> 'v) list"

record 'v subscribers =
  field_subs :: "key \<Rightarrow> 'v handler list"
  all_subs :: "'v handler list"

fun and_then :: "'v outcome \<Rightarrow> ('v world \<Rightarrow> 'v outcome) \<Rightarrow> 'v outcome" where
  "and_then None g = None"
| "and_then (Some (Inl e)) g = Some (Inl e)"
| "and_then (Some (Inr w)) g = g w"

fun each :: "('a \<Rightarrow> 'v world \<Rightarrow> 'v outcome) \<Rightarrow> 'a list \<Rightarrow> 'v world \<Rightarrow> 'v outcome" where
  "each f [] w = Some (Inr w)"
| "each f (x # xs) w = and_then (f x w) (each f xs)"

definition run_handler ::
  "(key \<Rightarrow> 'v \<Rightarrow> 'v world \<Rightarrow> 'v outcome) \<Rightarrow> 'v handler \<Rightarrow> 'v message \<Rightarrow> 'v world \<Rightarrow> 'v outcome" where
  "run_handler store_set h m w =
     each (\<lambda>(k, v). store_set k v) (h (props (heap w (state (storeSnapshot w)))) m) w"

text \<open>
  Modelled from the spec: \<^verbatim>\<open>Emitter.emit\<close> of \<^verbatim>\<open>typed-rx-emitter\<close>, whose source is not at
  hand. The emitter keeps the chain of the topics it is emitting on the current call
  stack. An \<^verbatim>\<open>emit\<close> on a topic of the chain reports the whole chain through
  \<^verbatim>\<open>onCycle\<close> and delivers nothing; any other \<^verbatim>\<open>emit\<close> delivers to the subscribers in
  subscription order, synchronously, with the topic on the chain for that time.
  \<open>store_set\<close> is what \<^verbatim>\<open>set\<close> does for a handler under the longer chain.
\<close>

definition Emitter_emit ::
  "(key list \<Rightarrow> key \<Rightarrow> 'v \<Rightarrow> 'v world \<Rightarrow> 'v outcome) \<Rightarrow> key list \<Rightarrow> 'v handler list
   \<Rightarrow> ref \<Rightarrow> key \<Rightarrow> 'v message \<Rightarrow> 'v world \<Rightarrow> 'v outcome" where
  "Emitter_emit store_set callChain subs e t m w =
     (if t \<in> set callChain then Some (Inr (onCycle (callChain @ [t]) w))
      else each (\<lambda>h. run_handler (store_set (callChain @ [t])) h m) subs
             (record_emission e t m w))"

text \<open>
  \<^verbatim>\<open>store.set(k)(v)\<close>: \<^verbatim>\<open>this.setters[k]\<close>, whose call raises when it is \<^verbatim>\<open>undefined\<close>,
  and then the closure's statements in their order, with \<^verbatim>\<open>this.emitter.emit\<close> under
  the chain of the per-field emitter and \<^verbatim>\<open>this.alls.emit\<close> under the chain of the
  all-fields emitter. A call from outside any emission has both chains empty. The first
  argument bounds how deep setter calls may nest.
\<close>

primrec invoke ::
  "nat \<Rightarrow> 'v subscribers \<Rightarrow> key list \<Rightarrow> key list \<Rightarrow> key \<Rightarrow> 'v \<Rightarrow> 'v world \<Rightarrow> 'v outcome" where
  "invoke 0 S chainE chainA k v w = None"
| "invoke (Suc n) S chainE chainA k v w =
     (case StoreDefinition_set k w of
        None \<Rightarrow> Some (Inl TypeError)
      | Some f \<Rightarrow>
          (let (previousValue, w1) = setter_swap (fn_key f) v w
           in and_then
                (Emitter_emit (\<lambda>ch. invoke n S ch chainA) chainE (field_subs S (fn_key f))
                   (emitter w1) (fn_key f) (Value v) w1)
                (\<lambda>w2. Emitter_emit (\<lambda>ch. invoke n S chainE ch) chainA (all_subs S)
                   (alls w2) (fn_key f)
                   (Change \<lparr>change_key = fn_key f, previousValue = previousValue,
                            change_value = v\<rparr>) w2)))"

text \<open>Every \<^verbatim>\<open>set\<close> call of every handler names a field that has a setter.\<close>

definition sets_only_fields :: "'v subscribers \<Rightarrow> 'v world \<Rightarrow> bool" where
  "sets_only_fields S w \<longleftrightarrow>
     (\<forall>t vis m. \<forall>h \<in> set (field_subs S t) \<union> set (all_subs S).
        \<forall>(k, v) \<in> set (h vis m). StoreDefinition_set k w \<noteq> None)"

text \<open>The one subscriber of field \<open>k\<close> answers every value by setting \<open>k\<close> again.\<close>

definition resetting :: "key \<Rightarrow> ('v message \<Rightarrow> 'v) \<Rightarrow> 'v subscribers" where
  "resetting k g =
     \<lparr>field_subs = (\<lambda>t. if t = k then [\<lambda>vis m. [(k, g m)]] else []), all_subs = []\<rparr>"

text \<open>
  No handler ever sets \<open>k\<close>; no handler makes a \<^verbatim>\<open>set\<close> call at all; nobody subscribed.
\<close>

definition never_sets :: "'v subscribers \<Rightarrow> key \<Rightarrow> bool" where
  "never_sets S k \<longleftrightarrow>
     (\<forall>t vis m. \<forall>h \<in> set (field_subs S t) \<union> set (all_subs S).
        \<forall>(j, v) \<in> set (h vis m). j \<noteq> k)"

definition quiet :: "'v subscribers \<Rightarrow> bool" where
  "quiet S \<longleftrightarrow>
     (\<forall>t vis m. \<forall>h \<in> set (field_subs S t) \<union> set (all_subs S). h vis m = [])"

definition no_subscribers :: "'v subscribers" where
  "no_subscribers = \<lparr>field_subs = (\<lambda>t. []), all_subs = []\<rparr>"

section \<open>Programs over a store\<close>

text \<open>
  What a consumer does to a store, one call after the other: \<^verbatim>\<open>store.set(k)(v)\<close>,
  \<^verbatim>\<open>store.getState()\<close>, and an assignment \<^verbatim>\<open>obj[k] = v\<close> to a state object it holds,
  in strict or in sloppy mode. An exception ends the run.
\<close>

datatype 'v action = Set key 'v | GetState | Assign bool ref key 'v

fun perform :: "nat \<Rightarrow> 'v subscribers \<Rightarrow> 'v action \<Rightarrow> 'v world \<Rightarrow> 'v outcome" where
  "perform n S (Set k v) w = invoke n S [] [] k v w"
| "perform n S GetState w = Some (Inr (snd (StoreDefinition_getState w)))"
| "perform n S (Assign strict r k v) w =
     (case assign_prop strict r k v (heap w) of
        Inl e \<Rightarrow> Some (Inl e)
      | Inr h \<Rightarrow> Some (Inr (w\<lparr>heap := h\<rparr>)))"

fun perform_all :: "nat \<Rightarrow> 'v subscribers \<Rightarrow> 'v action list \<Rightarrow> 'v world \<Rightarrow> 'v outcome" where
  "perform_all n S [] w = Some (Inr w)"
| "perform_all n S (a # as) w = and_then (perform n S a w) (perform_all n S as)"

section \<open>How a later world follows an earlier one\<close>

text \<open>
  What every step of a setter call keeps, when the handlers only set keys of \<open>ok\<close>:
  the invariant, the emitters and the setter table; allocation, the current snapshot
  and the trace only move on; objects that exist keep their properties; the current
  state loses no key other than \<^verbatim>\<open>__proto__\<close>; \<^verbatim>\<open>get\<close> is unchanged for every key
  outside \<open>ok\<close> other than \<^verbatim>\<open>__proto__\<close>; and when \<open>ok\<close> is empty, the snapshot and the
  heap stay.
\<close>

definition follows :: "(key \<Rightarrow> bool) \<Rightarrow> 'v world \<Rightarrow> 'v world \<Rightarrow> bool" where
  "follows ok w w' \<longleftrightarrow>
     (well_formed w \<longrightarrow>
        well_formed w'
        \<and> emitter w' = emitter w \<and> alls w' = alls w \<and> setters w' = setters w
        \<and> next_ref w \<le> next_ref w'
        \<and> snap_ref (storeSnapshot w) \<le> snap_ref (storeSnapshot w')
        \<and> state (storeSnapshot w) \<le> state (storeSnapshot w')
        \<and> (\<forall>r < next_ref w. props (heap w' r) = props (heap w r))
        \<and> (\<exists>es. trace w' = trace w @ es)
        \<and> fst ` set (props (heap w (state (storeSnapshot w)))) - {''__proto__''}
            \<subseteq> fst ` set (props (heap w' (state (storeSnapshot w'))))
        \<and> (\<forall>j. \<not> ok j \<longrightarrow> j \<noteq> ''__proto__'' \<longrightarrow>
               StoreDefinition_get j w' = StoreDefinition_get j w)
        \<and> ((\<forall>j. \<not> ok j) \<longrightarrow> storeSnapshot w' = storeSnapshot w \<and> heap w' = heap w))"

section \<open>A store to compute with\<close>

datatype js_value = Num int | Str string

text \<open>The world of a run that ended without an exception.\<close>

definition world_of :: "'v outcome \<Rightarrow> 'v world \<Rightarrow> 'v world" where
  "world_of r w = (case r of Some (Inr w') \<Rightarrow> w' | _ \<Rightarrow> w)"

text \<open>
  \<^verbatim>\<open>createStore({count: 0, name: "x"})\<close>, and the same store after \<^verbatim>\<open>set('count')(1)\<close>
  with nobody subscribed.
\<close>

definition example_store :: "js_value world" where
  "example_store = createStore [(''count'', Num 0), (''name'', Str ''x'')] DEFAULT_OPTIONS"

definition example_store_later :: "js_value world" where
  "example_store_later =
     world_of (invoke 1 no_subscribers [] [] ''count'' (Num 1) example_store) example_store"


text \<open>A consumer that keeps the list of the accesses it was told of.\<close>

definition record_access :: "key \<Rightarrow> string list \<Rightarrow> string list" where
  "record_access k c = c @ [k]"

definition record_all :: "string list \<Rightarrow> string list" where
  "record_all c = c @ [''getState'']"

text \<open>
  Wrappers over the first snapshot of \<open>example_store\<close>: one built with
  \<^verbatim>\<open>subscribedFields = null\<close>, one that has recorded \<^verbatim>\<open>name\<close> only.
\<close>

definition null_wrapper :: "string list wrapper" where
  "null_wrapper =
     \<lparr>snapshot = storeSnapshot example_store, onGetOrSet = record_access,
      onGetAll = record_all, subscribedFields = None, isSubscribedToAllFields = False\<rparr>"

definition name_wrapper :: "string list wrapper" where
  "name_wrapper =
     \<lparr>snapshot = storeSnapshot example_store, onGetOrSet = record_access,
      onGetAll = record_all, subscribedFields = Some {''name''},
      isSubscribedToAllFields = False\<rparr>"

definition plus_one :: "js_value message \<Rightarrow> js_value" where
  "plus_one m = (case m of Value (Num i) \<Rightarrow> Num (i + 1) | _ \<Rightarrow> Num 0)"

text \<open>
  The example store after \<^verbatim>\<open>set('count')(1)\<close> when the subscriber of \<^verbatim>\<open>count\<close> answers
  every value \<open>i\<close> by \<^verbatim>\<open>set('count')(i + 1)\<close>.
\<close>

definition example_store_reset :: "js_value world" where
  "example_store_reset =
     world_of (invoke 5 (resetting ''count'' plus_one) [] [] ''count'' (Num 1) example_store)
       example_store"

text \<open>The subscriber of \<^verbatim>\<open>count\<close> answers by \<^verbatim>\<open>set('name')("a")\<close>.\<close>

definition name_handler :: "js_value handler" where
  "name_handler vis m = [(''name'', Str ''a'')]"

definition renaming :: "js_value subscribers" where
  "renaming =
     \<lparr>field_subs = (\<lambda>t. if t = ''count'' then [name_handler] else []), all_subs = []\<rparr>"

definition example_store_renamed :: "js_value world" where
  "example_store_renamed =
     world_of (invoke 5 renaming [] [] ''count'' (Num 5) example_store) example_store"

text \<open>
  The example store after \<^verbatim>\<open>set('count')(1)\<close>, \<^verbatim>\<open>getState()\<close> and \<^verbatim>\<open>set('name')("y")\<close>, with
  that subscriber.
\<close>

definition example_store_run :: "js_value world" where
  "example_store_run =
     world_of
       (perform_all 5 renaming [Set ''count'' (Num 1), GetState, Set ''name'' (Str ''y'')]
          example_store)
       example_store"

text \<open>
  A store whose state has an own property \<^verbatim>\<open>__proto__\<close>, as
  \<^verbatim>\<open>JSON.parse('{"__proto__": 0, "count": 0}')\<close> gives, after \<^verbatim>\<open>set('__proto__')(1)\<close>
  and after \<^verbatim>\<open>set('count')(1)\<close>, with nobody subscribed.
\<close>

definition proto_store :: "js_value world" where
  "proto_store = createStore [(''__proto__'', Num 0), (''count'', Num 0)] DEFAULT_OPTIONS"

definition proto_store_set :: "js_value world" where
  "proto_store_set =
     world_of (invoke 1 no_subscribers [] [] ''__proto__'' (Num 1) proto_store) proto_store"

definition proto_store_counted :: "js_value world" where
  "proto_store_counted =
     world_of (invoke 1 no_subscribers [] [] ''count'' (Num 1) proto_store) proto_store"

text \<open>
  \<^verbatim>\<open>createStore({constructor: 0})\<close>, the same store after \<^verbatim>\<open>set('constructor')(1)\<close>, and a
  wrapper over the first snapshot that has recorded no field yet.
\<close>

definition constructor_store :: "js_value world" where
  "constructor_store = createStore [(''constructor'', Num 0)] DEFAULT_OPTIONS"

definition constructor_store_later :: "js_value world" where
  "constructor_store_later =
     world_of (invoke 1 no_subscribers [] [] ''constructor'' (Num 1) constructor_store)
       constructor_store"

definition empty_wrapper :: "string list wrapper" where
  "empty_wrapper =
     \<lparr>snapshot = storeSnapshot constructor_store, onGetOrSet = record_access,
      onGetAll = record_all, subscribedFields = Some {},
      isSubscribedToAllFields = False\<rparr>"

section \<open>Property lists\<close>

lemma update_fresh: "k \<notin> fst ` set al \<Longrightarrow> AList.update k v al = al @ [(k, v)]"
  by (induction al) auto

lemma fold_assign_append:
  "distinct (map fst (acc @ ps)) \<Longrightarrow>
   fold (\<lambda>(k, v) t. if k = ''__proto__'' then t else AList.update k v t) ps acc
     = acc @ filter (\<lambda>p. fst p \<noteq> ''__proto__'') ps"
proof (induction ps arbitrary: acc)
  case Nil
  then show ?case by simp
next
  case (Cons p ps)
  obtain k v where p: "p = (k, v)" by (cases p)
  show ?case
  proof (cases "k = ''__proto__''")
    case True
    have "distinct (map fst (acc @ ps))" using Cons.prems by simp
    then show ?thesis using Cons.IH [of acc] p True by simp
  next
    case False
    from Cons.prems p have fresh: "k \<notin> fst ` set acc" by auto
    have "distinct (map fst ((acc @ [(k, v)]) @ ps))" using Cons.prems p by auto
    then show ?thesis using Cons.IH [of "acc @ [(k, v)]"] p False fresh
      by (simp add: update_fresh)
  qed
qed

lemma Object_assign_copy:
  "distinct (map fst ps) \<Longrightarrow> Object_assign [] ps = filter (\<lambda>p. fst p \<noteq> ''__proto__'') ps"
  using fold_assign_append [of "[]" ps] by (simp add: Object_assign_def)

lemma Object_assign_single:
  "Object_assign ps [(k, v)] = (if k = ''__proto__'' then ps else AList.update k v ps)"
  by (simp add: Object_assign_def)

lemma Object_assign_distinct:
  "distinct (map fst acc) \<Longrightarrow> distinct (map fst (Object_assign acc ps))"
  unfolding Object_assign_def
  by (induction ps arbitrary: acc) (auto simp: distinct_update)

lemma map_of_own:
  "map_of (filter (\<lambda>p. fst p \<noteq> ''__proto__'') ps) j
     = (if j = ''__proto__'' then None else map_of ps j)"
  by (induction ps) auto

lemma new_state_props:
  "proper (heap w (state (storeSnapshot w))) \<Longrightarrow>
   props (new_state k v w)
     = (if k = ''__proto__''
        then filter (\<lambda>p. fst p \<noteq> ''__proto__'') (props (heap w (state (storeSnapshot w))))
        else AList.update k v
               (filter (\<lambda>p. fst p \<noteq> ''__proto__'') (props (heap w (state (storeSnapshot w))))))"
  by (simp add: new_state_def proper_def Object_assign_copy Object_assign_single)

lemma new_state_lookup:
  "proper (heap w (state (storeSnapshot w))) \<Longrightarrow>
   map_of (props (new_state k v w)) j
     = (if j = ''__proto__'' then None
        else if j = k then Some v
        else map_of (props (heap w (state (storeSnapshot w)))) j)"
  by (simp add: new_state_props update_conv' map_of_own)

lemma new_state_keys:
  assumes "proper (heap w (state (storeSnapshot w)))"
  shows "fst ` set (props (heap w (state (storeSnapshot w)))) - {''__proto__''}
           \<subseteq> fst ` set (props (new_state k v w))"
proof
  fix j assume j: "j \<in> fst ` set (props (heap w (state (storeSnapshot w)))) - {''__proto__''}"
  then have "map_of (props (heap w (state (storeSnapshot w)))) j \<noteq> None"
    by (simp add: map_of_eq_None_iff)
  with j have "map_of (props (new_state k v w)) j \<noteq> None"
    by (auto simp: new_state_lookup [OF assms])
  then show "j \<in> fst ` set (props (new_state k v w))"
    by (simp add: map_of_eq_None_iff)
qed

lemma proper_new_state: "proper (new_state k v w)"
  by (simp add: new_state_def proper_def Object_assign_distinct)

section \<open>The swap\<close>

lemma setter_swap_eq:
  "setter_swap k v w =
     (StoreDefinition_get k w,
      w\<lparr>heap := (heap w)
           (state (storeSnapshot w) := (heap w (state (storeSnapshot w)))\<lparr>frozen := True\<rparr>,
            next_ref w := new_state k v w),
        storeSnapshot := \<lparr>snap_ref = Suc (next_ref w), state = next_ref w\<rparr>,
        next_ref := Suc (Suc (next_ref w))\<rparr>)"
  by (simp add: setter_swap_def StoreSnapshot_getState_def Object_freeze_def Let_def
      StoreDefinition_get_def new_state_def)

lemma heap_swap:
  "heap (snd (setter_swap k v w)) =
     (heap w)(state (storeSnapshot w) := (heap w (state (storeSnapshot w)))\<lparr>frozen := True\<rparr>,
              next_ref w := new_state k v w)"
  and storeSnapshot_swap:
  "storeSnapshot (snd (setter_swap k v w)) = \<lparr>snap_ref = Suc (next_ref w), state = next_ref w\<rparr>"
  and next_ref_swap: "next_ref (snd (setter_swap k v w)) = Suc (Suc (next_ref w))"
  and setters_swap: "setters (snd (setter_swap k v w)) = setters w"
  and emitter_swap: "emitter (snd (setter_swap k v w)) = emitter w"
  and alls_swap: "alls (snd (setter_swap k v w)) = alls w"
  and console_swap: "console (snd (setter_swap k v w)) = console w"
  and trace_swap: "trace (snd (setter_swap k v w)) = trace w"
  and previous_swap: "fst (setter_swap k v w) = StoreDefinition_get k w"
  by (simp_all add: setter_swap_eq)

lemma fresh_state_swap: "heap (snd (setter_swap k v w)) (next_ref w) = new_state k v w"
  by (simp add: heap_swap)

lemma current_state_swap:
  "heap (snd (setter_swap k v w)) (state (storeSnapshot (snd (setter_swap k v w))))
     = new_state k v w"
  by (simp add: fresh_state_swap storeSnapshot_swap)

lemma old_state_swap:
  "r < next_ref w \<Longrightarrow> props (heap (snd (setter_swap k v w)) r) = props (heap w r)"
  by (simp add: heap_swap)

lemma get_swap:
  "proper (heap w (state (storeSnapshot w))) \<Longrightarrow>
   StoreDefinition_get j (snd (setter_swap k v w))
     = (if j = ''__proto__'' then None
        else if j = k then Some v
        else StoreDefinition_get j w)"
  by (simp add: StoreDefinition_get_def StoreSnapshot_get_def prop_read_def current_state_swap
      new_state_lookup)

lemma well_formed_swap: "well_formed w \<Longrightarrow> well_formed (snd (setter_swap k v w))"
  unfolding well_formed_def
  by (auto simp: fresh_state_swap proper_new_state storeSnapshot_swap next_ref_swap
      setters_swap emitter_swap alls_swap list_all_iff)

lemma key_of_setter:
  assumes "well_formed w" and "StoreDefinition_set k w = Some f"
  shows "fn_key f = k"
proof -
  from assms(2) have "(k, f) \<in> set (setters w)"
    by (simp add: StoreDefinition_set_def map_of_SomeD)
  with assms(1) show ?thesis
    by (auto simp: well_formed_def list_all_iff)
qed

section \<open>Steps that follow\<close>

lemma follows_refl: "follows ok w w"
  by (simp add: follows_def)

lemma follows_trans:
  assumes "follows ok a b" and "follows ok b c"
  shows "follows ok a c"
  unfolding follows_def
proof (intro impI)
  assume a: "well_formed a"
  with assms(1) have ab: "well_formed b" "emitter b = emitter a" "alls b = alls a"
    "setters b = setters a" "next_ref a \<le> next_ref b"
    "snap_ref (storeSnapshot a) \<le> snap_ref (storeSnapshot b)"
    "state (storeSnapshot a) \<le> state (storeSnapshot b)"
    "\<forall>r < next_ref a. props (heap b r) = props (heap a r)"
    "\<exists>es. trace b = trace a @ es"
    "fst ` set (props (heap a (state (storeSnapshot a)))) - {''__proto__''}
       \<subseteq> fst ` set (props (heap b (state (storeSnapshot b))))"
    "\<forall>j. \<not> ok j \<longrightarrow> j \<noteq> ''__proto__'' \<longrightarrow> StoreDefinition_get j b = StoreDefinition_get j a"
    "(\<forall>j. \<not> ok j) \<longrightarrow> storeSnapshot b = storeSnapshot a \<and> heap b = heap a"
    by (simp_all add: follows_def)
  from assms(2) ab(1) have bc: "well_formed c" "emitter c = emitter b" "alls c = alls b"
    "setters c = setters b" "next_ref b \<le> next_ref c"
    "snap_ref (storeSnapshot b) \<le> snap_ref (storeSnapshot c)"
    "state (storeSnapshot b) \<le> state (storeSnapshot c)"
    "\<forall>r < next_ref b. props (heap c r) = props (heap b r)"
    "\<exists>es. trace c = trace b @ es"
    "fst ` set (props (heap b (state (storeSnapshot b)))) - {''__proto__''}
       \<subseteq> fst ` set (props (heap c (state (storeSnapshot c))))"
    "\<forall>j. \<not> ok j \<longrightarrow> j \<noteq> ''__proto__'' \<longrightarrow> StoreDefinition_get j c = StoreDefinition_get j b"
    "(\<forall>j. \<not> ok j) \<longrightarrow> storeSnapshot c = storeSnapshot b \<and> heap c = heap b"
    by (simp_all add: follows_def)
  have old: "\<forall>r < next_ref a. props (heap c r) = props (heap a r)"
    using ab(5,8) bc(8) by auto
  have grown: "\<exists>es. trace c = trace a @ es"
    using ab(9) bc(9) by auto
  have keys: "fst ` set (props (heap a (state (storeSnapshot a)))) - {''__proto__''}
       \<subseteq> fst ` set (props (heap c (state (storeSnapshot c))))"
    using ab(10) bc(10) by blast
  show "well_formed c
        \<and> emitter c = emitter a \<and> alls c = alls a \<and> setters c = setters a
        \<and> next_ref a \<le> next_ref c
        \<and> snap_ref (storeSnapshot a) \<le> snap_ref (storeSnapshot c)
        \<and> state (storeSnapshot a) \<le> state (storeSnapshot c)
        \<and> (\<forall>r < next_ref a. props (heap c r) = props (heap a r))
        \<and> (\<exists>es. trace c = trace a @ es)
        \<and> fst ` set (props (heap a (state (storeSnapshot a)))) - {''__proto__''}
            \<subseteq> fst ` set (props (heap c (state (storeSnapshot c))))
        \<and> (\<forall>j. \<not> ok j \<longrightarrow> j \<noteq> ''__proto__'' \<longrightarrow>
               StoreDefinition_get j c = StoreDefinition_get j a)
        \<and> ((\<forall>j. \<not> ok j) \<longrightarrow> storeSnapshot c = storeSnapshot a \<and> heap c = heap a)"
    using ab bc old grown keys by simp
qed

lemma follows_swap:
  assumes "ok k"
  shows "follows ok w (snd (setter_swap k v w))"
  unfolding follows_def
proof (intro impI)
  assume wf: "well_formed w"
  then have proper: "proper (heap w (state (storeSnapshot w)))"
    and st: "state (storeSnapshot w) < next_ref w"
    and sn: "snap_ref (storeSnapshot w) < next_ref w"
    by (simp_all add: well_formed_def)
  have other: "\<forall>j. \<not> ok j \<longrightarrow> j \<noteq> ''__proto__'' \<longrightarrow>
      StoreDefinition_get j (snd (setter_swap k v w)) = StoreDefinition_get j w"
    using assms by (auto simp: get_swap [OF proper])
  have keys: "fst ` set (props (heap w (state (storeSnapshot w)))) - {''__proto__''}
      \<subseteq> fst ` set (props (heap (snd (setter_swap k v w))
            (state (storeSnapshot (snd (setter_swap k v w))))))"
    using new_state_keys [OF proper] by (simp add: current_state_swap)
  show "well_formed (snd (setter_swap k v w))
        \<and> emitter (snd (setter_swap k v w)) = emitter w
        \<and> alls (snd (setter_swap k v w)) = alls w
        \<and> setters (snd (setter_swap k v w)) = setters w
        \<and> next_ref w \<le> next_ref (snd (setter_swap k v w))
        \<and> snap_ref (storeSnapshot w) \<le> snap_ref (storeSnapshot (snd (setter_swap k v w)))
        \<and> state (storeSnapshot w) \<le> state (storeSnapshot (snd (setter_swap k v w)))
        \<and> (\<forall>r < next_ref w. props (heap (snd (setter_swap k v w)) r) = props (heap w r))
        \<and> (\<exists>es. trace (snd (setter_swap k v w)) = trace w @ es)
        \<and> fst ` set (props (heap w (state (storeSnapshot w)))) - {''__proto__''}
            \<subseteq> fst ` set (props (heap (snd (setter_swap k v w))
                  (state (storeSnapshot (snd (setter_swap k v w))))))
        \<and> (\<forall>j. \<not> ok j \<longrightarrow> j \<noteq> ''__proto__'' \<longrightarrow>
               StoreDefinition_get j (snd (setter_swap k v w)) = StoreDefinition_get j w)
        \<and> ((\<forall>j. \<not> ok j) \<longrightarrow>
             storeSnapshot (snd (setter_swap k v w)) = storeSnapshot w
             \<and> heap (snd (setter_swap k v w)) = heap w)"
    using well_formed_swap [OF wf] st sn other keys assms
    by (auto simp add: emitter_swap alls_swap setters_swap next_ref_swap storeSnapshot_swap
        old_state_swap trace_swap)
qed

lemma follows_record: "follows ok w (record_emission e t m w)"
  by (simp add: follows_def record_emission_def well_formed_def StoreDefinition_get_def
      StoreSnapshot_get_def)

lemma follows_onCycle: "follows ok w (onCycle chain w)"
  by (simp add: follows_def onCycle_def well_formed_def StoreDefinition_get_def
      StoreSnapshot_get_def)

section \<open>Runs that end in a world\<close>

lemma and_then_Inr:
  "and_then r g = Some (Inr w') \<Longrightarrow> \<exists>u. r = Some (Inr u) \<and> g u = Some (Inr w')"
  by (cases "(r, g)" rule: and_then.cases) auto

lemma each_rel:
  assumes refl: "\<And>w. R w w" and trans: "\<And>a b c. R a b \<Longrightarrow> R b c \<Longrightarrow> R a c"
    and f: "\<And>x u u'. x \<in> set xs \<Longrightarrow> f x u = Some (Inr u') \<Longrightarrow> R u u'"
    and run: "each f xs w = Some (Inr w')"
  shows "R w w'"
  using f run
proof (induction xs arbitrary: w)
  case Nil
  then show ?case by (simp add: refl)
next
  case (Cons x xs)
  from Cons.prems(2) obtain u where u: "f x w = Some (Inr u)" "each f xs u = Some (Inr w')"
    using and_then_Inr [of "f x w" "each f xs" w'] by auto
  have "R w u" using Cons.prems(1) [of x w u] u(1) by simp
  moreover have "R u w'"
  proof (rule Cons.IH [OF _ u(2)])
    fix y a b assume "y \<in> set xs" and "f y a = Some (Inr b)"
    then show "R a b" using Cons.prems(1) [of y a b] by simp
  qed
  ultimately show ?case by (rule trans)
qed

lemma run_handler_rel:
  assumes refl: "\<And>w. R w w" and trans: "\<And>a b c. R a b \<Longrightarrow> R b c \<Longrightarrow> R a c"
    and cmds: "\<And>vis j v. (j, v) \<in> set (h vis m) \<Longrightarrow> ok j"
    and store_set: "\<And>j v u u'. ok j \<Longrightarrow> store_set j v u = Some (Inr u') \<Longrightarrow> R u u'"
    and run: "run_handler store_set h m w = Some (Inr w')"
  shows "R w w'"
proof (rule each_rel [OF refl trans _ run [unfolded run_handler_def]])
  fix x and u u' :: "'a world"
  assume x: "x \<in> set (h (props (heap w (state (storeSnapshot w)))) m)"
    and step: "(case x of (k, v) \<Rightarrow> store_set k v) u = Some (Inr u')"
  obtain j v where jv: "x = (j, v)" by (cases x)
  with x have "ok j" using cmds by blast
  with step jv show "R u u'" using store_set by simp
qed

lemma deliver_rel:
  assumes refl: "\<And>w. R w w" and trans: "\<And>a b c. R a b \<Longrightarrow> R b c \<Longrightarrow> R a c"
    and cmds: "\<And>h vis j v. h \<in> set subs \<Longrightarrow> (j, v) \<in> set (h vis m) \<Longrightarrow> ok j"
    and store_set: "\<And>j v u u'. ok j \<Longrightarrow> store_set j v u = Some (Inr u') \<Longrightarrow> R u u'"
    and run: "each (\<lambda>h. run_handler store_set h m) subs w = Some (Inr w')"
  shows "R w w'"
proof (rule each_rel [OF refl trans _ run])
  fix h and u u' :: "'a world"
  assume h: "h \<in> set subs" and step: "run_handler store_set h m u = Some (Inr u')"
  show "R u u'"
  proof (rule run_handler_rel [where R = R and ok = ok, OF refl trans _ _ step])
    fix vis j v assume "(j, v) \<in> set (h vis m)"
    with h show "ok j" using cmds by blast
  next
    fix j v and a b :: "'a world"
    assume "ok j" and "store_set j v a = Some (Inr b)"
    then show "R a b" by (rule store_set)
  qed
qed

lemma Emitter_emit_rel:
  assumes refl: "\<And>w. R w w" and trans: "\<And>a b c. R a b \<Longrightarrow> R b c \<Longrightarrow> R a c"
    and noted: "\<And>w. R w (record_emission e t m w)"
    and cycle: "\<And>ch w. R w (onCycle ch w)"
    and cmds: "\<And>h vis j v. h \<in> set subs \<Longrightarrow> (j, v) \<in> set (h vis m) \<Longrightarrow> ok j"
    and store_set: "\<And>ch j v u u'. ok j \<Longrightarrow> store_set ch j v u = Some (Inr u') \<Longrightarrow> R u u'"
    and run: "Emitter_emit store_set callChain subs e t m w = Some (Inr w')"
  shows "R w w'"
proof (cases "t \<in> set callChain")
  case True
  with run show ?thesis by (auto simp: Emitter_emit_def cycle)
next
  case False
  with run have delivered: "each (\<lambda>h. run_handler (store_set (callChain @ [t])) h m) subs
      (record_emission e t m w) = Some (Inr w')"
    by (simp add: Emitter_emit_def)
  have "R (record_emission e t m w) w'"
  proof (rule deliver_rel [where R = R and ok = ok and store_set = "store_set (callChain @ [t])",
        OF refl trans _ _ delivered])
    fix h vis j v assume "h \<in> set subs" and "(j, v) \<in> set (h vis m)"
    then show "ok j" by (rule cmds)
  next
    fix j v and a b :: "'a world"
    assume "ok j" and "store_set (callChain @ [t]) j v a = Some (Inr b)"
    then show "R a b" by (rule store_set)
  qed
  with noted show ?thesis by (rule trans)
qed

lemma invoke_unfold:
  assumes "StoreDefinition_set k w = Some f"
  shows "invoke (Suc n) S chainE chainA k v w =
     and_then
       (Emitter_emit (\<lambda>ch. invoke n S ch chainA) chainE (field_subs S (fn_key f))
          (emitter w) (fn_key f) (Value v) (snd (setter_swap (fn_key f) v w)))
       (\<lambda>w2. Emitter_emit (\<lambda>ch. invoke n S chainE ch) chainA (all_subs S)
          (alls w2) (fn_key f)
          (Change \<lparr>change_key = fn_key f, previousValue = StoreDefinition_get (fn_key f) w,
                   change_value = v\<rparr>) w2)"
  using assms by (simp add: split_beta previous_swap emitter_swap)

lemma invoke_rel:
  fixes w w' :: "'v world"
  assumes refl: "\<And>w :: 'v world. R w w"
    and trans: "\<And>a b c :: 'v world. R a b \<Longrightarrow> R b c \<Longrightarrow> R a c"
    and swap: "\<And>j f v (w :: 'v world). ok j \<Longrightarrow> StoreDefinition_set j w = Some f \<Longrightarrow>
                 R w (snd (setter_swap (fn_key f) v w))"
    and noted: "\<And>e t m (w :: 'v world). R w (record_emission e t m w)"
    and cycle: "\<And>ch (w :: 'v world). R w (onCycle ch w)"
    and cmds: "\<And>h t vis m j v. h \<in> set (field_subs S t) \<union> set (all_subs S) \<Longrightarrow>
                 (j, v) \<in> set (h vis m) \<Longrightarrow> ok j"
  shows "invoke n S chainE chainA k v w = Some (Inr w') \<Longrightarrow>
         StoreDefinition_set k w = Some f \<Longrightarrow>
         R (snd (setter_swap (fn_key f) v w)) w'"
proof (induction n arbitrary: chainE chainA k v w w' f)
  case 0
  then show ?case by simp
next
  case (Suc n)
  have nested: "R u u'"
    if "ok j" and "invoke n S ch ch' j x u = Some (Inr u')" for ch ch' j x and u u' :: "'v world"
  proof (cases "StoreDefinition_set j u")
    case None
    with that(2) show ?thesis by (cases n) simp_all
  next
    case (Some g)
    have "R u (snd (setter_swap (fn_key g) x u))" using that(1) Some by (rule swap)
    moreover have "R (snd (setter_swap (fn_key g) x u)) u'" using that(2) Some by (rule Suc.IH)
    ultimately show ?thesis by (rule trans)
  qed
  let ?w1 = "snd (setter_swap (fn_key f) v w)"
  from Suc.prems obtain w2 where
    first: "Emitter_emit (\<lambda>ch. invoke n S ch chainA) chainE (field_subs S (fn_key f))
          (emitter w) (fn_key f) (Value v) ?w1 = Some (Inr w2)"
    and second: "Emitter_emit (\<lambda>ch. invoke n S chainE ch) chainA (all_subs S)
          (alls w2) (fn_key f)
          (Change \<lparr>change_key = fn_key f, previousValue = StoreDefinition_get (fn_key f) w,
                   change_value = v\<rparr>) w2 = Some (Inr w')"
    using and_then_Inr by (fastforce simp: invoke_unfold simp del: invoke.simps)
  have "R ?w1 w2"
  proof (rule Emitter_emit_rel [where R = R and ok = ok, OF refl trans noted cycle _ _ first])
    fix h vis j x assume "h \<in> set (field_subs S (fn_key f))" and "(j, x) \<in> set (h vis (Value v))"
    then show "ok j" using cmds by blast
  next
    fix ch j x and a b :: "'v world"
    assume "ok j" and "invoke n S ch chainA j x a = Some (Inr b)"
    then show "R a b" by (rule nested)
  qed
  moreover have "R w2 w'"
  proof (rule Emitter_emit_rel [where R = R and ok = ok, OF refl trans noted cycle _ _ second])
    fix h vis j x assume "h \<in> set (all_subs S)"
      and "(j, x) \<in> set (h vis (Change \<lparr>change_key = fn_key f,
              previousValue = StoreDefinition_get (fn_key f) w, change_value = v\<rparr>))"
    then show "ok j" using cmds by blast
  next
    fix ch j x and a b :: "'v world"
    assume "ok j" and "invoke n S chainE ch j x a = Some (Inr b)"
    then show "R a b" by (rule nested)
  qed
  ultimately show ?case by (rule trans)
qed

lemma invoke_follows:
  fixes w w' :: "'v world"
  assumes run: "invoke n S chainE chainA k v w = Some (Inr w')"
    and wf: "well_formed w" and field: "StoreDefinition_set k w = Some f"
    and cmds: "\<And>h t vis m j x. h \<in> set (field_subs S t) \<union> set (all_subs S) \<Longrightarrow>
                 (j, x) \<in> set (h vis m) \<Longrightarrow> ok j"
  shows "follows ok (snd (setter_swap k v w)) w'"
proof -
  have "follows ok (snd (setter_swap (fn_key f) v w)) w'"
  proof (rule invoke_rel [where R = "follows ok" and ok = ok, OF _ _ _ _ _ _ run field])
    fix a b c :: "'v world"
    assume "follows ok a b" and "follows ok b c"
    then show "follows ok a c" by (rule follows_trans)
  next
    fix j g x and u :: "'v world"
    assume ok: "ok j" and g: "StoreDefinition_set j u = Some g"
    show "follows ok u (snd (setter_swap (fn_key g) x u))"
    proof (cases "well_formed u")
      case True
      then have "fn_key g = j" using g by (rule key_of_setter)
      with ok show ?thesis by (simp add: follows_swap)
    next
      case False
      then show ?thesis by (simp add: follows_def)
    qed
  next
    fix h t vis m j x
    assume "h \<in> set (field_subs S t) \<union> set (all_subs S)" and "(j, x) \<in> set (h vis m)"
    then show "ok j" by (rule cmds)
  qed (simp_all add: follows_refl follows_record follows_onCycle)
  then show ?thesis using key_of_setter [OF wf field] by simp
qed

section \<open>Every run ends\<close>

lemma setters_record: "setters (record_emission e t m w) = setters w"
  by (simp add: record_emission_def)

lemma setters_onCycle: "setters (onCycle chain w) = setters w"
  by (simp add: onCycle_def)

lemma each_good:
  assumes step: "\<And>r g. P r \<Longrightarrow> (\<And>w'. r = Some (Inr w') \<Longrightarrow> setters w' = T \<Longrightarrow> P (g w')) \<Longrightarrow> P (and_then r g)"
    and fin: "\<And>w. setters w = T \<Longrightarrow> P (Some (Inr w))"
    and f: "\<And>x w. x \<in> set xs \<Longrightarrow> setters w = T \<Longrightarrow> P (f x w)"
    and w: "setters (w::'v world) = T"
  shows "P (each f xs w)"
  using f w
proof (induction xs arbitrary: w)
  case Nil
  then show ?case by (simp add: fin)
next
  case (Cons x xs)
  have "P (and_then (f x w) (each f xs))"
  proof (rule step)
    show "P (f x w)" using Cons.prems by simp
  next
    fix w' :: "'v world" assume "setters w' = T"
    then show "P (each f xs w')" using Cons.prems(1) by (intro Cons.IH) auto
  qed
  then show ?case by simp
qed

lemma Emitter_emit_good:
  assumes step: "\<And>r g. P r \<Longrightarrow> (\<And>w'. r = Some (Inr w') \<Longrightarrow> setters w' = T \<Longrightarrow> P (g w')) \<Longrightarrow> P (and_then r g)"
    and fin: "\<And>w. setters w = T \<Longrightarrow> P (Some (Inr w))"
    and cmds: "\<And>h vis k v. h \<in> set subs \<Longrightarrow> (k, v) \<in> set (h vis m) \<Longrightarrow> k \<in> ok"
    and store_set: "\<And>k v w. t \<notin> set callChain \<Longrightarrow> k \<in> ok \<Longrightarrow> setters w = T \<Longrightarrow> P (store_set (callChain @ [t]) k v w)"
    and w: "setters (w::'v world) = T"
  shows "P (Emitter_emit store_set callChain subs e t m w)"
proof (cases "t \<in> set callChain")
  case True
  then show ?thesis by (simp add: Emitter_emit_def fin setters_onCycle w)
next
  case False
  have "P (each (\<lambda>h. run_handler (store_set (callChain @ [t])) h m) subs (record_emission e t m w))"
  proof (rule each_good [OF step fin])
    show "setters (record_emission e t m w) = T" by (simp add: setters_record w)
  next
    fix h and w1 :: "'v world"
    assume h: "h \<in> set subs" and w1: "setters w1 = T"
    show "P (run_handler (store_set (callChain @ [t])) h m w1)"
      unfolding run_handler_def
    proof (rule each_good [OF step fin _ w1])
      fix x and w2 :: "'v world"
      assume x: "x \<in> set (h (props (heap w1 (state (storeSnapshot w1)))) m)" and w2: "setters w2 = T"
      obtain k v where kv: "x = (k, v)" by (cases x)
      with x h have "k \<in> ok" using cmds by blast
      then show "P ((case x of (k, v) \<Rightarrow> store_set (callChain @ [t]) k v) w2)"
        using kv store_set [OF False _ w2] by simp
    qed
  qed
  with False show ?thesis by (simp add: Emitter_emit_def)
qed

lemma room_shrinks:
  assumes "finite K" and "t \<in> K" and "t \<notin> set ch"
  shows "card (K - set (ch @ [t])) < card (K - set ch)"
proof -
  have "K - set (ch @ [t]) = (K - set ch) - {t}" by auto
  moreover have "t \<in> K - set ch" using assms by simp
  moreover have "finite (K - set ch)" using assms(1) by simp
  ultimately show ?thesis using card_Diff1_less [of "K - set ch" t] by simp
qed

lemma invoke_good:
  fixes w :: "'v world"
  assumes step: "\<And>r g. P r \<Longrightarrow> (\<And>w'::'v world. r = Some (Inr w') \<Longrightarrow> setters w' = T \<Longrightarrow> P (g w')) \<Longrightarrow> P (and_then r g)"
    and fin: "\<And>w::'v world. setters w = T \<Longrightarrow> P (Some (Inr w))"
    and no_setter: "\<And>k. k \<in> ok \<Longrightarrow> map_of T k = None \<Longrightarrow> P (Some (Inl TypeError))"
    and cmds: "\<And>h t vis m k v. h \<in> set (field_subs S t) \<union> set (all_subs S) \<Longrightarrow> (k, v) \<in> set (h vis m) \<Longrightarrow> k \<in> ok"
  shows "setters w = T \<Longrightarrow> k \<in> ok \<Longrightarrow>
         card (fn_key ` snd ` set T - set chainE) + card (fn_key ` snd ` set T - set chainA) < n \<Longrightarrow>
         P (invoke n S chainE chainA k v w)"
proof (induction n arbitrary: chainE chainA k v w)
  case 0
  then show ?case by simp
next
  case (Suc n)
  let ?K = "fn_key ` snd ` set T"
  have finK: "finite ?K" by simp
  show ?case
  proof (cases "map_of T k")
    case None
    then have "invoke (Suc n) S chainE chainA k v w = Some (Inl TypeError)"
      using Suc.prems(1) by (simp add: StoreDefinition_set_def)
    then show ?thesis using no_setter [OF Suc.prems(2) None] by simp
  next
    case (Some f)
    define t where "t = fn_key f"
    define w1 where "w1 = snd (setter_swap t v w)"
    define prev where "prev = fst (setter_swap t v w)"
    have tK: "t \<in> ?K"
      using map_of_SomeD [OF Some] by (force simp: t_def)
    have w1: "setters w1 = T"
      by (simp add: w1_def setters_swap Suc.prems(1))
    have unfold: "invoke (Suc n) S chainE chainA k v w =
        and_then (Emitter_emit (\<lambda>ch. invoke n S ch chainA) chainE (field_subs S t) (emitter w1) t (Value v) w1)
          (\<lambda>w2. Emitter_emit (\<lambda>ch. invoke n S chainE ch) chainA (all_subs S) (alls w2) t
             (Change \<lparr>change_key = t, previousValue = prev, change_value = v\<rparr>) w2)"
      using Some Suc.prems(1)
      by (simp add: StoreDefinition_set_def t_def w1_def prev_def split_beta)
    have "P (and_then (Emitter_emit (\<lambda>ch. invoke n S ch chainA) chainE (field_subs S t) (emitter w1) t (Value v) w1)
          (\<lambda>w2. Emitter_emit (\<lambda>ch. invoke n S chainE ch) chainA (all_subs S) (alls w2) t
             (Change \<lparr>change_key = t, previousValue = prev, change_value = v\<rparr>) w2))"
    proof (rule step)
      show "P (Emitter_emit (\<lambda>ch. invoke n S ch chainA) chainE (field_subs S t) (emitter w1) t (Value v) w1)"
      proof (rule Emitter_emit_good [OF step fin _ _ w1, where ok = ok])
        fix h vis k' v'
        assume "h \<in> set (field_subs S t)" and "(k', v') \<in> set (h vis (Value v))"
        then show "k' \<in> ok" using cmds by blast
      next
        fix k' v' and w' :: "'v world"
        assume fresh: "t \<notin> set chainE" and k': "k' \<in> ok" and w': "setters w' = T"
        have "card (?K - set (chainE @ [t])) < card (?K - set chainE)"
          using finK tK fresh by (rule room_shrinks)
        with Suc.prems(3) have "card (?K - set (chainE @ [t])) + card (?K - set chainA) < n" by simp
        then show "P (invoke n S (chainE @ [t]) chainA k' v' w')"
          using w' k' by (intro Suc.IH)
      qed
    next
      fix w2 :: "'v world"
      assume w2: "setters w2 = T"
      show "P (Emitter_emit (\<lambda>ch. invoke n S chainE ch) chainA (all_subs S) (alls w2) t
             (Change \<lparr>change_key = t, previousValue = prev, change_value = v\<rparr>) w2)"
      proof (rule Emitter_emit_good [OF step fin _ _ w2, where ok = ok])
        fix h vis k' v'
        assume "h \<in> set (all_subs S)"
          and "(k', v') \<in> set (h vis (Change \<lparr>change_key = t, previousValue = prev, change_value = v\<rparr>))"
        then show "k' \<in> ok" using cmds by blast
      next
        fix k' v' and w' :: "'v world"
        assume fresh: "t \<notin> set chainA" and k': "k' \<in> ok" and w': "setters w' = T"
        have "card (?K - set (chainA @ [t])) < card (?K - set chainA)"
          using finK tK fresh by (rule room_shrinks)
        with Suc.prems(3) have "card (?K - set chainE) + card (?K - set (chainA @ [t])) < n" by simp
        then show "P (invoke n S chainE (chainA @ [t]) k' v' w')"
          using w' k' by (intro Suc.IH)
      qed
    qed
    with unfold show ?thesis by simp
  qed
qed

lemma room_bound: "card (fn_key ` snd ` set T - set ch) \<le> length T"
proof -
  have "card (fn_key ` snd ` set T - set ch) \<le> card (fn_key ` snd ` set T)"
    by (simp add: card_mono)
  also have "\<dots> \<le> card (set T)"
    by (metis card_image_le List.finite_set image_image)
  also have "\<dots> \<le> length T" by (rule card_length)
  finally show ?thesis .
qed

lemma invoke_halts:
  fixes w :: "'v world"
  assumes "2 * length (setters w) < n"
  shows "\<exists>r. invoke n S chainE chainA k v w = Some r"
proof -
  let ?P = "\<lambda>r :: 'v outcome.
     case r of None \<Rightarrow> False | Some (Inl e) \<Rightarrow> True | Some (Inr w') \<Rightarrow> setters w' = setters w"
  have "?P (invoke n S chainE chainA k v w)"
  proof (rule invoke_good [where P = ?P and T = "setters w" and ok = UNIV])
    fix r :: "'v outcome" and g :: "'v world \<Rightarrow> 'v outcome"
    assume "?P r" and "\<And>w'. r = Some (Inr w') \<Longrightarrow> setters w' = setters w \<Longrightarrow> ?P (g w')"
    then show "?P (and_then r g)"
      by (cases "(r, g)" rule: and_then.cases) auto
  next
    show "card (fn_key ` snd ` set (setters w) - set chainE)
        + card (fn_key ` snd ` set (setters w) - set chainA) < n"
      using room_bound [of "setters w" chainE] room_bound [of "setters w" chainA] assms by simp
  qed simp_all
  then show ?thesis by (cases "invoke n S chainE chainA k v w") auto
qed

lemma invoke_settles:
  fixes w :: "'v world"
  assumes fuel: "2 * length (setters w) < n"
    and field: "StoreDefinition_set k w \<noteq> None"
    and cmds: "\<And>h t vis m k' v'. h \<in> set (field_subs S t) \<union> set (all_subs S) \<Longrightarrow>
                 (k', v') \<in> set (h vis m) \<Longrightarrow> StoreDefinition_set k' w \<noteq> None"
  shows "\<exists>w'. invoke n S chainE chainA k v w = Some (Inr w')"
proof -
  let ?P = "\<lambda>r :: 'v outcome.
     case r of Some (Inr w') \<Rightarrow> setters w' = setters w | _ \<Rightarrow> False"
  have "?P (invoke n S chainE chainA k v w)"
  proof (rule invoke_good [where P = ?P and T = "setters w"
        and ok = "{k. map_of (setters w) k \<noteq> None}"])
    fix r :: "'v outcome" and g :: "'v world \<Rightarrow> 'v outcome"
    assume "?P r" and "\<And>w'. r = Some (Inr w') \<Longrightarrow> setters w' = setters w \<Longrightarrow> ?P (g w')"
    then show "?P (and_then r g)"
      by (cases "(r, g)" rule: and_then.cases) auto
  next
    show "card (fn_key ` snd ` set (setters w) - set chainE)
        + card (fn_key ` snd ` set (setters w) - set chainA) < n"
      using room_bound [of "setters w" chainE] room_bound [of "setters w" chainA] fuel by simp
  next
    show "k \<in> {k. map_of (setters w) k \<noteq> None}"
      using field by (simp add: StoreDefinition_set_def)
  next
    fix h t vis m k' v'
    assume "h \<in> set (field_subs S t) \<union> set (all_subs S)" and "(k', v') \<in> set (h vis m)"
    then have "StoreDefinition_set k' w \<noteq> None" by (rule cmds)
    then show "k' \<in> {k. map_of (setters w) k \<noteq> None}"
      by (simp add: StoreDefinition_set_def)
  qed simp_all
  then show ?thesis by (auto split: option.splits sum.splits)
qed

lemma invoke_returns:
  fixes w :: "'v world"
  assumes "2 * length (setters w) < n" and "StoreDefinition_set k w = Some f"
  shows "(\<exists>r. invoke n S chainE chainA k v w = Some r)
       \<and> (sets_only_fields S w \<longrightarrow> (\<exists>w'. invoke n S chainE chainA k v w = Some (Inr w')))"
proof -
  have "\<exists>w'. invoke n S chainE chainA k v w = Some (Inr w')" if "sets_only_fields S w"
  proof (rule invoke_settles [OF assms(1)])
    show "StoreDefinition_set k w \<noteq> None" using assms(2) by simp
  next
    fix h t vis m k' v'
    assume "h \<in> set (field_subs S t) \<union> set (all_subs S)" and "(k', v') \<in> set (h vis m)"
    with that show "StoreDefinition_set k' w \<noteq> None"
      unfolding sets_only_fields_def by blast
  qed
  then show ?thesis using invoke_halts [OF assms(1)] by blast
qed

section \<open>The stages of one call\<close>


lemma each_quiet:
  assumes "\<And>x. x \<in> set xs \<Longrightarrow> f x = (\<lambda>w. Some (Inr w))"
  shows "each f xs w = Some (Inr w)"
  using assms by (induction xs arbitrary: w) simp_all

lemma deliver_quiet:
  assumes "quiet S" and "set subs \<subseteq> set (field_subs S t) \<union> set (all_subs S)"
  shows "each (\<lambda>h. run_handler store_set h m) subs w = Some (Inr w)"
proof (rule each_quiet)
  fix h assume "h \<in> set subs"
  with assms have "\<And>vis. h vis m = []" unfolding quiet_def by blast
  then show "run_handler store_set h m = (\<lambda>w. Some (Inr w))"
    by (simp add: run_handler_def fun_eq_iff)
qed

lemma invoke_quiet:
  assumes "quiet S" and "StoreDefinition_set k w = Some f" and "well_formed w"
    and "k \<notin> set chainE" and "k \<notin> set chainA"
  shows "invoke (Suc n) S chainE chainA k v w =
     Some (Inr (record_emission (alls w) k
                  (Change \<lparr>change_key = k, previousValue = StoreDefinition_get k w,
                           change_value = v\<rparr>)
                  (record_emission (emitter w) k (Value v) (snd (setter_swap k v w)))))"
proof -
  have key: "fn_key f = k" using assms(3,2) by (rule key_of_setter)
  have field: "each (\<lambda>h. run_handler store_set h m) (field_subs S k) u = Some (Inr u)"
    for store_set m and u :: "'a world"
    by (rule deliver_quiet [OF assms(1), of _ k]) simp
  have all: "each (\<lambda>h. run_handler store_set h m) (all_subs S) u = Some (Inr u)"
    for store_set m and u :: "'a world"
    by (rule deliver_quiet [OF assms(1), of _ k]) simp
  show ?thesis
    using assms(4,5)
    by (simp add: invoke_unfold [OF assms(2)] key Emitter_emit_def field all
        record_emission_def alls_swap del: invoke.simps)
qed


section \<open>The trace of one call\<close>

lemma follows_facts:
  assumes "follows ok a b" and "well_formed a"
  shows "well_formed b" and "emitter b = emitter a" and "alls b = alls a"
    and "setters b = setters a" and "next_ref a \<le> next_ref b"
    and "snap_ref (storeSnapshot a) \<le> snap_ref (storeSnapshot b)"
    and "state (storeSnapshot a) \<le> state (storeSnapshot b)"
    and "\<And>r. r < next_ref a \<Longrightarrow> props (heap b r) = props (heap a r)"
    and "\<exists>es. trace b = trace a @ es"
    and "fst ` set (props (heap a (state (storeSnapshot a)))) - {''__proto__''}
           \<subseteq> fst ` set (props (heap b (state (storeSnapshot b))))"
    and "\<And>j. \<not> ok j \<Longrightarrow> j \<noteq> ''__proto__'' \<Longrightarrow>
           StoreDefinition_get j b = StoreDefinition_get j a"
  using assms by (simp_all add: follows_def)



lemma never_sets_cmds:
  assumes "never_sets S k" and "h \<in> set (field_subs S t) \<union> set (all_subs S)"
    and "(j, x) \<in> set (h vis m)"
  shows "j \<noteq> k"
  using assms unfolding never_sets_def by blast

lemma well_formed_invoke:
  fixes w w' :: "'v world"
  assumes "invoke n S chainE chainA k v w = Some (Inr w')" and "well_formed w"
  shows "well_formed w'"
proof (cases "StoreDefinition_set k w")
  case None
  with assms(1) show ?thesis by (cases n) simp_all
next
  case (Some f)
  have "follows (\<lambda>j. True) (snd (setter_swap k v w)) w'"
    by (rule invoke_follows [OF assms Some]) simp
  then show ?thesis using well_formed_swap [OF assms(2)] by (simp add: follows_def)
qed

section \<open>The example worlds\<close>

lemma run_ends:
  "(case r of Some (Inr w') \<Rightarrow> True | _ \<Rightarrow> False) \<Longrightarrow> r = Some (Inr (world_of r w))"
  by (auto simp: world_of_def split: option.splits sum.splits)

lemma mapValues_closures:
  "list_all (\<lambda>(k, f). fn_key f = k \<and> r \<le> fn_ref f \<and> fn_ref f < r + length ps)
     (mapValues ps (\<lambda>r v k. \<lparr>fn_ref = r, fn_key = k\<rparr>) r)"
proof (induction ps arbitrary: r)
  case Nil
  then show ?case by simp
next
  case (Cons p ps)
  obtain k v where p: "p = (k, v)" by (cases p)
  have "list_all (\<lambda>(k, f). fn_key f = k \<and> Suc r \<le> fn_ref f \<and> fn_ref f < Suc r + length ps)
     (mapValues ps (\<lambda>r v k. \<lparr>fn_ref = r, fn_key = k\<rparr>) (Suc r))"
    by (rule Cons.IH)
  then have "list_all (\<lambda>(k, f). fn_key f = k \<and> r \<le> fn_ref f \<and> fn_ref f < r + length (p # ps))
     (mapValues ps (\<lambda>r v k. \<lparr>fn_ref = r, fn_key = k\<rparr>) (Suc r))"
    by (rule list.pred_mono_strong) auto
  then show ?case using p by simp
qed

lemma well_formed_createStore:
  "distinct (map fst initialState) \<Longrightarrow> well_formed (createStore initialState opts)"
  using mapValues_closures [of 4 initialState]
  by (auto simp: well_formed_def createStore_def proper_def list_all_iff)

lemma well_formed_example: "well_formed example_store"
  by (simp add: example_store_def well_formed_createStore)

lemma count_setter_example:
  "StoreDefinition_set ''count'' example_store = Some \<lparr>fn_ref = 4, fn_key = ''count''\<rparr>"
  by (simp add: example_store_def createStore_def StoreDefinition_set_def)

lemma example_start:
  "trace example_store = []" "console example_store = []" "emitter example_store = 2"
  "alls example_store = 1" "next_ref example_store = 6"
  "storeSnapshot example_store = \<lparr>snap_ref = 3, state = 0\<rparr>"
  "length (setters example_store) = 2"
  "props (heap example_store 0) = [(''count'', Num 0), (''name'', Str ''x'')]"
  "StoreDefinition_get ''count'' example_store = Some (Num 0)"
  "StoreDefinition_get ''name'' example_store = Some (Str ''x'')"
  by (simp_all add: example_store_def createStore_def StoreDefinition_get_def
      StoreSnapshot_get_def prop_read_def)

lemma quiet_no_subscribers: "quiet no_subscribers"
  by (simp add: quiet_def no_subscribers_def)


lemma example_later_run:
  "invoke (Suc n) no_subscribers [] [] ''count'' (Num 1) example_store
     = Some (Inr example_store_later)"
  using invoke_quiet [OF quiet_no_subscribers count_setter_example well_formed_example,
      of "[]" "[]" _ "Num 1"]
  by (simp add: example_store_later_def world_of_def del: invoke.simps)


lemma example_reset_run:
  "invoke 5 (resetting ''count'' plus_one) [] [] ''count'' (Num 1) example_store
     = Some (Inr example_store_reset)"
  unfolding example_store_reset_def by (rule run_ends) code_simp

lemma example_renamed_run:
  "invoke 5 renaming [] [] ''count'' (Num 5) example_store = Some (Inr example_store_renamed)"
  unfolding example_store_renamed_def by (rule run_ends) code_simp

lemma proto_set_run:
  "invoke 1 no_subscribers [] [] ''__proto__'' (Num 1) proto_store = Some (Inr proto_store_set)"
  unfolding proto_store_set_def by (rule run_ends) code_simp

lemma proto_counted_run:
  "invoke 1 no_subscribers [] [] ''count'' (Num 1) proto_store = Some (Inr proto_store_counted)"
  unfolding proto_store_counted_def by (rule run_ends) code_simp

lemma example_later_facts:
  "StoreDefinition_get ''count'' example_store_later = Some (Num 1)"
  "StoreSnapshot_get (storeSnapshot example_store) ''count'' example_store_later = Some (Num 0)"
  by code_simp+

section \<open>Reading back what was set\<close>

text \<open>
  C1, as stated, fails. When the subscriber of \<^verbatim>\<open>count\<close> answers every value by
  \<^verbatim>\<open>set('count')\<close> of the next number, \<^verbatim>\<open>get('count')\<close> is 2 after \<^verbatim>\<open>set('count')(1)\<close> has
  returned. And for a field named \<^verbatim>\<open>__proto__\<close> the new state object gets no own
  property of that name, so that \<^verbatim>\<open>get('__proto__')\<close> does not find the value set.
\<close>

theorem set_then_get_counterexample:
  "invoke 5 (resetting ''count'' plus_one) [] [] ''count'' (Num 1) example_store
     = Some (Inr example_store_reset)
   \<and> StoreDefinition_get ''count'' example_store_reset = Some (Num 2)
   \<and> invoke 1 no_subscribers [] [] ''__proto__'' (Num 1) proto_store
       = Some (Inr proto_store_set)
   \<and> StoreDefinition_get ''__proto__'' proto_store = Some (Num 0)
   \<and> StoreDefinition_get ''__proto__'' proto_store_set = None"
proof -
  have "StoreDefinition_get ''count'' example_store_reset = Some (Num 2)" by code_simp
  moreover have "StoreDefinition_get ''__proto__'' proto_store = Some (Num 0)" by code_simp
  moreover have "StoreDefinition_get ''__proto__'' proto_store_set = None" by code_simp
  ultimately show ?thesis using example_reset_run proto_set_run by simp
qed

text \<open>
  C1, amended. For a field \<open>k\<close> other than \<^verbatim>\<open>__proto__\<close> and any value \<open>v\<close>, whoever is
  subscribed and wherever the call is made: the call \<^verbatim>\<open>set(k)(v)\<close> ends, without an
  exception when the handlers only set fields; a snapshot captured before the call
  answers \<^verbatim>\<open>get(k)\<close> afterwards as it did before; and \<^verbatim>\<open>get(k)\<close> on the store is \<open>v\<close>
  afterwards, provided that no subscriber's handler ever sets \<open>k\<close>.
\<close>

theorem set_then_get:
  fixes w :: "'v world"
  assumes "well_formed w" and "StoreDefinition_set k w = Some f"
    and "2 * length (setters w) < n" and "k \<noteq> ''__proto__''"
    and "state old < next_ref w"
  shows "(\<exists>r. invoke n S chainE chainA k v w = Some r)
       \<and> (sets_only_fields S w \<longrightarrow> (\<exists>w'. invoke n S chainE chainA k v w = Some (Inr w')))
       \<and> (\<forall>w'. invoke n S chainE chainA k v w = Some (Inr w') \<longrightarrow>
             StoreSnapshot_get old k w' = StoreSnapshot_get old k w
             \<and> (never_sets S k \<longrightarrow> StoreDefinition_get k w' = Some v))"
proof -
  from assms(1) have proper: "proper (heap w (state (storeSnapshot w)))"
    by (simp add: well_formed_def)
  have wf1: "well_formed (snd (setter_swap k v w))"
    using assms(1) by (rule well_formed_swap)
  have after: "StoreSnapshot_get old k w' = StoreSnapshot_get old k w
             \<and> (never_sets S k \<longrightarrow> StoreDefinition_get k w' = Some v)"
    if run: "invoke n S chainE chainA k v w = Some (Inr w')" for w'
  proof -
    have "follows (\<lambda>j. True) (snd (setter_swap k v w)) w'"
      by (rule invoke_follows [OF run assms(1,2)]) simp
    from follows_facts(8) [OF this wf1, of "state old"] assms(5)
    have "props (heap w' (state old)) = props (heap w (state old))"
      by (simp add: next_ref_swap old_state_swap)
    then have held: "StoreSnapshot_get old k w' = StoreSnapshot_get old k w"
      by (simp add: StoreSnapshot_get_def prop_read_def)
    have "StoreDefinition_get k w' = Some v" if "never_sets S k"
    proof -
      have "follows (\<lambda>j. j \<noteq> k) (snd (setter_swap k v w)) w'"
        using run assms(1,2) never_sets_cmds [OF that] by (rule invoke_follows)
      from follows_facts(11) [OF this wf1, of k] assms(4)
      show ?thesis by (simp add: get_swap [OF proper])
    qed
    with held show ?thesis by simp
  qed
  show ?thesis
    using invoke_returns [OF assms(3,2), of S chainE chainA v] after by blast
qed

theorem set_then_get_witness:
  "well_formed example_store
   \<and> StoreDefinition_set ''count'' example_store = Some \<lparr>fn_ref = 4, fn_key = ''count''\<rparr>
   \<and> 2 * length (setters example_store) < 5
   \<and> ''count'' \<noteq> ''__proto__''
   \<and> state (storeSnapshot example_store) < next_ref example_store
   \<and> sets_only_fields renaming example_store
   \<and> never_sets renaming ''count''
   \<and> invoke 5 renaming [] [] ''count'' (Num 5) example_store = Some (Inr example_store_renamed)
   \<and> StoreSnapshot_get (storeSnapshot example_store) ''count'' example_store = Some (Num 0)
   \<and> StoreSnapshot_get (storeSnapshot example_store) ''count'' example_store_renamed
       = Some (Num 0)
   \<and> StoreDefinition_get ''count'' example_store_renamed = Some (Num 5)"
proof -
  have fuel: "2 * length (setters example_store) < 5" by (simp add: example_start)
  have key: "''count'' \<noteq> ''__proto__''" by simp
  have held: "state (storeSnapshot example_store) < next_ref example_store"
    by (simp add: example_start)
  have tame: "sets_only_fields renaming example_store"
    by (simp add: sets_only_fields_def renaming_def name_handler_def example_store_def
        createStore_def StoreDefinition_set_def)
  have never: "never_sets renaming ''count''"
    by (simp add: never_sets_def renaming_def name_handler_def)
  have before: "StoreSnapshot_get (storeSnapshot example_store) ''count'' example_store
      = Some (Num 0)"
    by code_simp
  note main = set_then_get [OF well_formed_example count_setter_example fuel key held,
      of renaming "[]" "[]" "Num 5"]
  from main example_renamed_run never before
  have "StoreSnapshot_get (storeSnapshot example_store) ''count'' example_store_renamed
       = Some (Num 0)"
    and "StoreDefinition_get ''count'' example_store_renamed = Some (Num 5)"
    by simp_all
  then show ?thesis
    using well_formed_example count_setter_example fuel held tame never example_renamed_run
      before
    by simp
qed

section \<open>The order of one setter call\<close>




section \<open>The other fields\<close>

text \<open>
  C3, as stated, fails. When the subscriber of \<^verbatim>\<open>count\<close> answers by \<^verbatim>\<open>set('name')("a")\<close>,
  \<^verbatim>\<open>set('count')(5)\<close> changes \<^verbatim>\<open>get('name')\<close> from \<^verbatim>\<open>"x"\<close> to \<^verbatim>\<open>"a"\<close>. And an own property
  \<^verbatim>\<open>__proto__\<close> of the state is not copied: after \<^verbatim>\<open>set('count')(1)\<close> it is gone.
\<close>

theorem setter_keeps_other_fields_counterexample:
  "invoke 5 renaming [] [] ''count'' (Num 5) example_store = Some (Inr example_store_renamed)
   \<and> StoreDefinition_get ''name'' example_store = Some (Str ''x'')
   \<and> StoreDefinition_get ''name'' example_store_renamed = Some (Str ''a'')
   \<and> invoke 1 no_subscribers [] [] ''count'' (Num 1) proto_store
       = Some (Inr proto_store_counted)
   \<and> StoreDefinition_get ''__proto__'' proto_store = Some (Num 0)
   \<and> StoreDefinition_get ''__proto__'' proto_store_counted = None"
proof -
  have "StoreDefinition_get ''name'' example_store_renamed = Some (Str ''a'')" by code_simp
  moreover have "StoreDefinition_get ''__proto__'' proto_store = Some (Num 0)" by code_simp
  moreover have "StoreDefinition_get ''__proto__'' proto_store_counted = None" by code_simp
  ultimately show ?thesis
    using example_renamed_run proto_counted_run by (simp add: example_start)
qed

text \<open>
  C3, amended. For a field \<open>k\<close>, a value \<open>v\<close> and another key \<open>j\<close> that is not
  \<^verbatim>\<open>__proto__\<close>: a call of the setter of \<open>k\<close> ends, and when it ends without an exception
  \<^verbatim>\<open>get(j)\<close> is as before, provided that no subscriber's handler ever sets \<open>j\<close>. The
  store's state is another object than before; the object that the call allocated holds
  the old own properties other than \<^verbatim>\<open>__proto__\<close> with only \<open>k\<close> replaced by \<open>v\<close>; the
  old state object keeps its properties; and when no subscriber makes a \<^verbatim>\<open>set\<close> call,
  the allocated object is the store's state.
\<close>

theorem setter_keeps_other_fields:
  fixes w :: "'v world"
  assumes "well_formed w" and "StoreDefinition_set k w = Some f"
    and "2 * length (setters w) < n" and "j \<noteq> k" and "j \<noteq> ''__proto__''"
  shows "(\<exists>r. invoke n S chainE chainA k v w = Some r)
       \<and> (sets_only_fields S w \<longrightarrow> (\<exists>w'. invoke n S chainE chainA k v w = Some (Inr w')))
       \<and> (\<forall>w'. invoke n S chainE chainA k v w = Some (Inr w') \<longrightarrow>
             (never_sets S j \<longrightarrow> StoreDefinition_get j w' = StoreDefinition_get j w)
             \<and> state (storeSnapshot w') \<noteq> state (storeSnapshot w)
             \<and> (\<forall>i. map_of (props (heap w' (next_ref w))) i
                    = (if i = ''__proto__'' then None
                       else if i = k then Some v
                       else map_of (props (heap w (state (storeSnapshot w)))) i))
             \<and> props (heap w' (state (storeSnapshot w)))
                 = props (heap w (state (storeSnapshot w)))
             \<and> (quiet S \<longrightarrow> state (storeSnapshot w') = next_ref w))"
proof -
  from assms(1) have proper: "proper (heap w (state (storeSnapshot w)))"
    and allocated: "state (storeSnapshot w) < next_ref w"
    by (simp_all add: well_formed_def)
  have wf1: "well_formed (snd (setter_swap k v w))"
    using assms(1) by (rule well_formed_swap)
  have after: "(never_sets S j \<longrightarrow> StoreDefinition_get j w' = StoreDefinition_get j w)
             \<and> state (storeSnapshot w') \<noteq> state (storeSnapshot w)
             \<and> (\<forall>i. map_of (props (heap w' (next_ref w))) i
                    = (if i = ''__proto__'' then None
                       else if i = k then Some v
                       else map_of (props (heap w (state (storeSnapshot w)))) i))
             \<and> props (heap w' (state (storeSnapshot w)))
                 = props (heap w (state (storeSnapshot w)))
             \<and> (quiet S \<longrightarrow> state (storeSnapshot w') = next_ref w)"
    if run: "invoke n S chainE chainA k v w = Some (Inr w')" for w'
  proof -
    have any: "follows (\<lambda>j. True) (snd (setter_swap k v w)) w'"
      by (rule invoke_follows [OF run assms(1,2)]) simp
    note facts = follows_facts [OF any wf1]
    have kept: "StoreDefinition_get j w' = StoreDefinition_get j w" if "never_sets S j"
    proof -
      have "follows (\<lambda>i. i \<noteq> j) (snd (setter_swap k v w)) w'"
        using run assms(1,2) never_sets_cmds [OF that] by (rule invoke_follows)
      from follows_facts(11) [OF this wf1, of j] assms(4,5)
      show ?thesis by (simp add: get_swap [OF proper])
    qed
    have other: "state (storeSnapshot w') \<noteq> state (storeSnapshot w)"
      using facts(7) allocated by (simp add: storeSnapshot_swap)
    have "props (heap w' (next_ref w)) = props (new_state k v w)"
      using facts(8) [of "next_ref w"] by (simp add: next_ref_swap fresh_state_swap)
    then have built: "\<forall>i. map_of (props (heap w' (next_ref w))) i
                    = (if i = ''__proto__'' then None
                       else if i = k then Some v
                       else map_of (props (heap w (state (storeSnapshot w)))) i)"
      by (simp add: new_state_lookup [OF proper])
    have old: "props (heap w' (state (storeSnapshot w))) = props (heap w (state (storeSnapshot w)))"
      using facts(8) [of "state (storeSnapshot w)"] allocated
      by (simp add: next_ref_swap old_state_swap)
    have calm: "state (storeSnapshot w') = next_ref w" if "quiet S"
    proof -
      have "follows (\<lambda>i. False) (snd (setter_swap k v w)) w'"
      proof (rule invoke_follows [OF run assms(1,2)])
        fix h t vis m i x
        assume h: "h \<in> set (field_subs S t) \<union> set (all_subs S)" and cmd: "(i, x) \<in> set (h vis m)"
        from that h have "h vis m = []" unfolding quiet_def by blast
        with cmd show False by simp
      qed
      with wf1 have "storeSnapshot w' = storeSnapshot (snd (setter_swap k v w))"
        by (simp add: follows_def)
      then show ?thesis by (simp add: storeSnapshot_swap)
    qed
    from kept have kept': "never_sets S j \<longrightarrow> StoreDefinition_get j w' = StoreDefinition_get j w"
      by simp
    from calm have calm': "quiet S \<longrightarrow> state (storeSnapshot w') = next_ref w"
      by simp
    show ?thesis by (intro conjI) (fact kept' other built old calm')+
  qed
  show ?thesis
    using invoke_returns [OF assms(3,2), of S chainE chainA v] after by blast
qed

theorem setter_keeps_other_fields_witness:
  "well_formed example_store
   \<and> StoreDefinition_set ''count'' example_store = Some \<lparr>fn_ref = 4, fn_key = ''count''\<rparr>
   \<and> 2 * length (setters example_store) < 5
   \<and> ''name'' \<noteq> ''count'' \<and> ''name'' \<noteq> ''__proto__''
   \<and> sets_only_fields (resetting ''count'' plus_one) example_store
   \<and> never_sets (resetting ''count'' plus_one) ''name''
   \<and> invoke 5 (resetting ''count'' plus_one) [] [] ''count'' (Num 1) example_store
       = Some (Inr example_store_reset)
   \<and> StoreDefinition_get ''name'' example_store = Some (Str ''x'')
   \<and> StoreDefinition_get ''name'' example_store_reset = Some (Str ''x'')
   \<and> StoreDefinition_get ''count'' example_store_reset = Some (Num 2)
   \<and> props (heap example_store_reset 0) = [(''count'', Num 0), (''name'', Str ''x'')]
   \<and> quiet no_subscribers
   \<and> invoke 5 no_subscribers [] [] ''count'' (Num 1) example_store
       = Some (Inr example_store_later)
   \<and> state (storeSnapshot example_store_later) = 6"
proof -
  have fuel: "2 * length (setters example_store) < 5" by (simp add: example_start)
  have other: "''name'' \<noteq> ''count''" and plain: "''name'' \<noteq> ''__proto__''" by simp_all
  have tame: "sets_only_fields (resetting ''count'' plus_one) example_store"
    by (simp add: sets_only_fields_def resetting_def count_setter_example)
  have never: "never_sets (resetting ''count'' plus_one) ''name''"
    by (simp add: never_sets_def resetting_def)
  have count: "StoreDefinition_get ''count'' example_store_reset = Some (Num 2)" by code_simp
  have run: "invoke 5 no_subscribers [] [] ''count'' (Num 1) example_store
       = Some (Inr example_store_later)"
    using example_later_run [of 4] by (simp add: eval_nat_numeral del: invoke.simps)
  note loud = setter_keeps_other_fields [OF well_formed_example count_setter_example fuel
      other plain, of "resetting ''count'' plus_one" "[]" "[]" "Num 1"]
  from loud example_reset_run never
  have name: "StoreDefinition_get ''name'' example_store_reset = Some (Str ''x'')"
    and old: "props (heap example_store_reset 0) = [(''count'', Num 0), (''name'', Str ''x'')]"
    by (auto simp: example_start)
  note calm = setter_keeps_other_fields [OF well_formed_example count_setter_example fuel
      other plain, of no_subscribers "[]" "[]" "Num 1"]
  from calm run quiet_no_subscribers
  have fresh: "state (storeSnapshot example_store_later) = 6"
    by (auto simp: example_start)
  show ?thesis
    using well_formed_example count_setter_example fuel other plain tame never
      example_reset_run example_start(10) name count old quiet_no_subscribers run fresh
    by (intro conjI) assumption+
qed

section \<open>No equality check\<close>




section \<open>The setter table\<close>

lemma setters_getState: "setters (snd (StoreSnapshot_getState s w)) = setters w"
  by (simp add: StoreSnapshot_getState_def Object_freeze_def)

lemma setters_invoke:
  fixes w w' :: "'v world"
  assumes "invoke n S chainE chainA k v w = Some (Inr w')"
  shows "setters w' = setters w"
proof (cases "StoreDefinition_set k w")
  case None
  with assms show ?thesis by (cases n) simp_all
next
  case (Some f)
  have "setters w' = setters (snd (setter_swap (fn_key f) v w))"
    by (rule invoke_rel [where R = "\<lambda>a b. setters b = setters a" and ok = "\<lambda>j. True",
          OF _ _ _ _ _ _ assms Some])
      (simp_all add: setters_swap setters_record setters_onCycle)
  then show ?thesis by (simp add: setters_swap)
qed

lemma setters_perform: "perform n S a w = Some (Inr w') \<Longrightarrow> setters w' = setters w"
  by (cases a)
    (auto simp: setters_invoke StoreDefinition_getState_def setters_getState split: sum.splits)

lemma setters_perform_all: "perform_all n S acts w = Some (Inr w') \<Longrightarrow> setters w' = setters w"
proof (induction acts arbitrary: w)
  case Nil
  then show ?case by simp
next
  case (Cons a acts)
  from Cons.prems obtain u where "perform n S a w = Some (Inr u)"
    and "perform_all n S acts u = Some (Inr w')"
    using and_then_Inr [of "perform n S a w" "perform_all n S acts" w'] by auto
  then show ?case using Cons.IH [of u] setters_perform [of n S a w u] by simp
qed

lemma mapValues_lookup:
  "map_of (mapValues ps (\<lambda>r v k. \<lparr>fn_ref = r, fn_key = k\<rparr>) r) k = Some f \<Longrightarrow>
   \<exists>i < length ps. fst (ps ! i) = k \<and> f = \<lparr>fn_ref = r + i, fn_key = k\<rparr>"
proof (induction ps arbitrary: r)
  case Nil
  then show ?case by simp
next
  case (Cons p ps)
  obtain k' v' where p: "p = (k', v')" by (cases p)
  show ?case
  proof (cases "k' = k")
    case True
    with Cons.prems p have "f = \<lparr>fn_ref = r + 0, fn_key = k\<rparr>" by simp
    with True p show ?thesis by (intro exI [of _ 0]) simp
  next
    case False
    with Cons.prems p
    have "map_of (mapValues ps (\<lambda>r v k. \<lparr>fn_ref = r, fn_key = k\<rparr>) (Suc r)) k = Some f" by simp
    then obtain i where "i < length ps" "fst (ps ! i) = k" "f = \<lparr>fn_ref = Suc r + i, fn_key = k\<rparr>"
      using Cons.IH by blast
    then show ?thesis by (intro exI [of _ "Suc i"]) simp
  qed
qed

lemma mapValues_keys: "map fst (mapValues ps g r) = map fst ps"
  by (induction ps g r rule: mapValues.induct) simp_all

lemma mapValues_defined:
  "map_of (mapValues ps g r) k = None \<longleftrightarrow> k \<notin> fst ` set ps"
  by (metis map_of_eq_None_iff mapValues_keys set_map)

lemma well_formed_perform_all:
  "well_formed w \<Longrightarrow> perform_all n S acts w = Some (Inr w') \<Longrightarrow> well_formed w'"
proof (induction acts arbitrary: w)
  case Nil
  then show ?case by simp
next
  case (Cons a acts)
  from Cons.prems(2) obtain u where step: "perform n S a w = Some (Inr u)"
    and rest: "perform_all n S acts u = Some (Inr w')"
    using and_then_Inr [of "perform n S a w" "perform_all n S acts" w'] by auto
  have "well_formed u"
  proof (cases a)
    case (Set k v)
    with step Cons.prems(1) show ?thesis by (auto intro: well_formed_invoke)
  next
    case GetState
    with step Cons.prems(1) show ?thesis
      by (auto simp: well_formed_def StoreDefinition_getState_def StoreSnapshot_getState_def
          Object_freeze_def proper_def)
  next
    case (Assign strict r k v)
    with step Cons.prems(1) show ?thesis
      by (auto simp: well_formed_def assign_prop_def proper_def distinct_update
          split: if_splits)
  qed
  then show ?case using rest by (rule Cons.IH)
qed

text \<open>
  C8. In every world that a run of \<^verbatim>\<open>set\<close> calls, \<^verbatim>\<open>getState\<close> calls and outside
  assignments reaches from \<^verbatim>\<open>createStore\<close>, whoever is subscribed, \<^verbatim>\<open>set(k)\<close> gives the
  closure that the constructor cached for \<open>k\<close>, the same through the
  \<^verbatim>\<open>StoreDefinition\<close>, a \<^verbatim>\<open>StoreSnapshot\<close> and a \<^verbatim>\<open>StoreSnapshotWrapper\<close>. There is a closure
  exactly for the fields of the initial state; it captured \<open>k\<close>, it was allocated by the
  constructor, and no other key has it.
\<close>

theorem setters_are_cached:
  assumes "perform_all n S acts (createStore initialState opts) = Some (Inr w)"
  shows "StoreDefinition_set k w = StoreDefinition_set k (createStore initialState opts)
       \<and> StoreSnapshot_set s k w = StoreDefinition_set k w
       \<and> snd (StoreSnapshotWrapper_set wr k c w) = StoreDefinition_set k w
       \<and> (StoreDefinition_set k w = None \<longleftrightarrow> k \<notin> fst ` set initialState)
       \<and> (\<forall>f. StoreDefinition_set k w = Some f \<longrightarrow>
             fn_key f = k \<and> 4 \<le> fn_ref f \<and> fn_ref f < next_ref (createStore initialState opts))
       \<and> (\<forall>j f g. StoreDefinition_set k w = Some f \<and> StoreDefinition_set j w = Some g
             \<and> fn_ref f = fn_ref g \<longrightarrow> j = k)"
proof -
  let ?table = "mapValues initialState (\<lambda>r v k. \<lparr>fn_ref = r, fn_key = k\<rparr>) 4"
  have table: "setters w = ?table"
    using setters_perform_all [OF assms] by (simp add: createStore_def)
  have same: "StoreDefinition_set k w = StoreDefinition_set k (createStore initialState opts)"
    by (simp add: StoreDefinition_set_def table createStore_def)
  have defined: "StoreDefinition_set k w = None \<longleftrightarrow> k \<notin> fst ` set initialState"
    by (simp add: StoreDefinition_set_def table mapValues_defined)
  have built: "fn_key f = k \<and> 4 \<le> fn_ref f \<and> fn_ref f < next_ref (createStore initialState opts)"
    if "StoreDefinition_set k w = Some f" for f
  proof -
    from that have "map_of ?table k = Some f" by (simp add: StoreDefinition_set_def table)
    then obtain i where "i < length initialState" "f = \<lparr>fn_ref = 4 + i, fn_key = k\<rparr>"
      using mapValues_lookup by blast
    then show ?thesis by (simp add: createStore_def)
  qed
  have one: "j = k"
    if "StoreDefinition_set k w = Some f" "StoreDefinition_set j w = Some g" "fn_ref f = fn_ref g"
    for j f g
  proof -
    from that(1) have "map_of ?table k = Some f" by (simp add: StoreDefinition_set_def table)
    then obtain i where i: "fst (initialState ! i) = k" "f = \<lparr>fn_ref = 4 + i, fn_key = k\<rparr>"
      using mapValues_lookup by blast
    from that(2) have "map_of ?table j = Some g" by (simp add: StoreDefinition_set_def table)
    then obtain i' where i': "fst (initialState ! i') = j" "g = \<lparr>fn_ref = 4 + i', fn_key = j\<rparr>"
      using mapValues_lookup by blast
    from that(3) i(2) i'(2) have "i = i'" by simp
    with i(1) i'(1) show ?thesis by simp
  qed
  show ?thesis
    using same defined built one
    by (simp add: StoreSnapshot_set_def StoreSnapshotWrapper_set_def)
qed

theorem setters_are_cached_witness:
  "perform_all 5 renaming [Set ''count'' (Num 1), GetState, Set ''name'' (Str ''y'')]
      (createStore [(''count'', Num 0), (''name'', Str ''x'')] DEFAULT_OPTIONS)
     = Some (Inr example_store_run)
   \<and> StoreDefinition_get ''count'' example_store_run = Some (Num 1)
   \<and> StoreDefinition_get ''name'' example_store_run = Some (Str ''y'')
   \<and> StoreDefinition_set ''count'' example_store_run = Some \<lparr>fn_ref = 4, fn_key = ''count''\<rparr>
   \<and> StoreDefinition_set ''count'' example_store = Some \<lparr>fn_ref = 4, fn_key = ''count''\<rparr>
   \<and> StoreSnapshot_set (storeSnapshot example_store) ''count'' example_store_run
       = Some \<lparr>fn_ref = 4, fn_key = ''count''\<rparr>
   \<and> snd (StoreSnapshotWrapper_set null_wrapper ''count'' [] example_store_run)
       = Some \<lparr>fn_ref = 4, fn_key = ''count''\<rparr>"
proof -
  have "perform_all 5 renaming [Set ''count'' (Num 1), GetState, Set ''name'' (Str ''y'')]
      example_store = Some (Inr example_store_run)"
    unfolding example_store_run_def by (rule run_ends) code_simp
  then have run: "perform_all 5 renaming [Set ''count'' (Num 1), GetState, Set ''name'' (Str ''y'')]
      (createStore [(''count'', Num 0), (''name'', Str ''x'')] DEFAULT_OPTIONS)
     = Some (Inr example_store_run)"
    by (simp add: example_store_def)
  have final: "StoreDefinition_get ''count'' example_store_run = Some (Num 1)"
    "StoreDefinition_get ''name'' example_store_run = Some (Str ''y'')"
    by code_simp+
  show ?thesis
    using setters_are_cached [OF run, of "''count''" "storeSnapshot example_store" null_wrapper "[]"]
      run count_setter_example final
    by (simp add: example_store_def)
qed

section \<open>The wrapper\<close>

text \<open>
  C9. \<^verbatim>\<open>on(k)\<close> and \<^verbatim>\<open>onAll()\<close> of a wrapper give the stream of the store's per-field
  emitter for \<open>k\<close> and the stream of its all-fields emitter, which are what the
  \<^verbatim>\<open>StoreDefinition\<close> itself gives, and the consumer's record of accesses is as before:
  neither callback ran.
\<close>

theorem wrapper_subscriptions_pass_through:
  "StoreSnapshotWrapper_on wr k c w = (c, Stream (emitter w) (Some k))
   \<and> StoreSnapshotWrapper_onAll wr c w = (c, Stream (alls w) None)
   \<and> snd (StoreSnapshotWrapper_on wr k c w) = StoreDefinition_on k w
   \<and> snd (StoreSnapshotWrapper_onAll wr c w) = StoreDefinition_onAll w"
  by (simp add: StoreSnapshotWrapper_on_def StoreSnapshotWrapper_onAll_def StoreSnapshot_on_def
      StoreSnapshot_onAll_def StoreDefinition_on_def StoreDefinition_onAll_def)

text \<open>
  C10. A wrapper built with \<^verbatim>\<open>subscribedFields = null\<close> and not subscribed to all fields
  answers \<^verbatim>\<open>get(k)\<close> from the snapshot it holds, for every key, and does not call the
  access-recording callback.
\<close>

theorem null_wrapper_reads_held_snapshot:
  assumes "subscribedFields wr = None" and "\<not> isSubscribedToAllFields wr"
  shows "StoreSnapshotWrapper_get wr k c w = (c, StoreSnapshot_get (snapshot wr) k w)"
  using assms by (simp add: StoreSnapshotWrapper_get_def)

theorem null_wrapper_reads_held_snapshot_witness:
  "subscribedFields null_wrapper = None \<and> \<not> isSubscribedToAllFields null_wrapper
   \<and> StoreSnapshotWrapper_get null_wrapper ''count'' [] example_store_later = ([], Some (Num 0))
   \<and> StoreDefinition_get ''count'' example_store_later = Some (Num 1)"
proof -
  have null: "subscribedFields null_wrapper = None" and some: "\<not> isSubscribedToAllFields null_wrapper"
    by (simp_all add: null_wrapper_def)
  have "snapshot null_wrapper = storeSnapshot example_store"
    by (simp add: null_wrapper_def)
  then show ?thesis
    using null_wrapper_reads_held_snapshot [OF null some, of "''count''" "[]" example_store_later]
      null some
    by (simp add: example_later_facts)
qed

text \<open>
  C4, as stated, fails for a wrapper whose \<^verbatim>\<open>subscribedFields\<close> is \<^verbatim>\<open>null\<close>: it is not
  subscribed to all fields and has recorded no field, \<^verbatim>\<open>set('count')(1)\<close> happened after
  its snapshot was taken, and still \<^verbatim>\<open>get('count')\<close> answers the stale 0 without a call
  of the callback. It also fails for a field named as something that every object
  inherits: a wrapper that has recorded nothing answers \<^verbatim>\<open>get('constructor')\<close> with the
  stale 0, without a call of the callback.
\<close>

theorem first_read_counterexample:
  "\<not> isSubscribedToAllFields null_wrapper
   \<and> subscribedFields null_wrapper = None
   \<and> StoreSnapshotWrapper_get null_wrapper ''count'' [] example_store_later = ([], Some (Num 0))
   \<and> onGetOrSet null_wrapper ''count'' [] = [''count'']
   \<and> StoreDefinition_get ''count'' example_store_later = Some (Num 1)
   \<and> \<not> isSubscribedToAllFields empty_wrapper
   \<and> subscribedFields empty_wrapper = Some {}
   \<and> StoreSnapshotWrapper_get empty_wrapper ''constructor'' [] constructor_store_later
       = ([], Some (Num 0))
   \<and> onGetOrSet empty_wrapper ''constructor'' [] = [''constructor'']
   \<and> StoreDefinition_get ''constructor'' constructor_store_later = Some (Num 1)"
proof -
  have null: "StoreSnapshotWrapper_get null_wrapper ''count'' [] example_store_later
      = ([], Some (Num 0))"
    by (simp add: StoreSnapshotWrapper_get_def example_later_facts)
      (simp add: null_wrapper_def example_later_facts)
  have held: "StoreSnapshot_get (storeSnapshot constructor_store) ''constructor''
      constructor_store_later = Some (Num 0)"
    and live: "StoreDefinition_get ''constructor'' constructor_store_later = Some (Num 1)"
    by code_simp+
  have inherited: "key_in ''constructor'' {}"
    by (simp add: key_in_def Object_prototype_names_def)
  have empty: "StoreSnapshotWrapper_get empty_wrapper ''constructor'' [] constructor_store_later
       = ([], Some (Num 0))"
    using inherited held by (simp add: StoreSnapshotWrapper_get_def empty_wrapper_def)
  show ?thesis
    using null empty live
    by (simp add: null_wrapper_def empty_wrapper_def record_access_def example_later_facts)
qed

text \<open>
  C4, amended. For a wrapper that is not subscribed to all fields and has a set of
  recorded fields (not \<^verbatim>\<open>null\<close>), and a key \<open>k\<close> that is neither in that set nor a name
  inherited from \<^verbatim>\<open>Object.prototype\<close>: \<^verbatim>\<open>get(k)\<close> calls the access-recording callback
  once, for \<open>k\<close>, and answers with the value of the store's current state, whatever the
  held snapshot says.
\<close>

theorem first_read_is_recorded_and_fresh:
  assumes "\<not> isSubscribedToAllFields wr" and "subscribedFields wr = Some recorded"
    and "k \<notin> recorded" and "k \<notin> set Object_prototype_names"
  shows "StoreSnapshotWrapper_get wr k c w = (onGetOrSet wr k c, StoreDefinition_get k w)"
  using assms by (simp add: StoreSnapshotWrapper_get_def key_in_def)

theorem first_read_is_recorded_and_fresh_witness:
  "\<not> isSubscribedToAllFields name_wrapper \<and> subscribedFields name_wrapper = Some {''name''}
   \<and> ''count'' \<notin> {''name''}
   \<and> ''count'' \<notin> set Object_prototype_names
   \<and> StoreSnapshot_get (snapshot name_wrapper) ''count'' example_store_later = Some (Num 0)
   \<and> StoreSnapshotWrapper_get name_wrapper ''count'' [] example_store_later
       = ([''count''], Some (Num 1))"
proof -
  have hyps: "\<not> isSubscribedToAllFields name_wrapper"
    "subscribedFields name_wrapper = Some {''name''}" "''count'' \<notin> {''name''}"
    "''count'' \<notin> set Object_prototype_names"
    by (simp_all add: name_wrapper_def Object_prototype_names_def)
  have held: "snapshot name_wrapper = storeSnapshot example_store"
    and callback: "onGetOrSet name_wrapper ''count'' [] = [''count'']"
    by (simp_all add: name_wrapper_def record_access_def)
  show ?thesis
    using first_read_is_recorded_and_fresh [OF hyps, of "[]" example_store_later] hyps
    by (simp add: held callback example_later_facts)
qed

section \<open>getState\<close>

text \<open>
  C5, as stated, fails: \<^verbatim>\<open>getState()\<close> makes no copy. On the example store it returns
  reference 0, the very object that was handed to \<^verbatim>\<open>createStore\<close>; nothing is
  allocated, and that object, not frozen before, is frozen afterwards.
\<close>

theorem getState_copy_counterexample:
  "fst (StoreDefinition_getState example_store) = state (storeSnapshot example_store)
   \<and> fst (StoreDefinition_getState example_store) = 0
   \<and> next_ref (snd (StoreDefinition_getState example_store)) = next_ref example_store
   \<and> \<not> frozen (heap example_store 0)
   \<and> frozen (heap (snd (StoreDefinition_getState example_store)) 0)"
  by (simp add: StoreDefinition_getState_def StoreSnapshot_getState_def Object_freeze_def
      example_store_def createStore_def)

text \<open>
  C5, amended. \<^verbatim>\<open>getState()\<close> freezes the underlying state object in place and returns
  that same object: its properties stay, no other object changes (the freeze is not
  deep), nothing is allocated. An assignment to a property of the returned object
  either raises (strict mode) or is ignored, so that every later \<^verbatim>\<open>get\<close> answers as
  before.
\<close>

theorem getState_freezes_in_place:
  "\<exists>w'. StoreSnapshot_getState s w = (state s, w')
     \<and> frozen (heap w' (state s))
     \<and> props (heap w' (state s)) = props (heap w (state s))
     \<and> (\<forall>r. r \<noteq> state s \<longrightarrow> heap w' r = heap w r)
     \<and> next_ref w' = next_ref w
     \<and> StoreDefinition_getState w = StoreSnapshot_getState (storeSnapshot w) w
     \<and> (\<forall>j. StoreSnapshot_get s j w' = StoreSnapshot_get s j w
            \<and> StoreDefinition_get j w' = StoreDefinition_get j w)
     \<and> (\<forall>strict k v. case assign_prop strict (state s) k v (heap w') of
            Inl e \<Rightarrow> strict
          | Inr h \<Rightarrow> \<not> strict \<and> h = heap w'
              \<and> (\<forall>j. StoreDefinition_get j (w'\<lparr>heap := h\<rparr>) = StoreDefinition_get j w
                     \<and> StoreSnapshot_get s j (w'\<lparr>heap := h\<rparr>) = StoreSnapshot_get s j w))"
  by (simp add: StoreSnapshot_getState_def Object_freeze_def StoreDefinition_getState_def
      StoreSnapshot_get_def StoreDefinition_get_def prop_read_def assign_prop_def)

theorem getState_freezes_in_place_witness:
  "\<exists>w'. StoreSnapshot_getState (storeSnapshot example_store) example_store = (0, w')
     \<and> frozen (heap w' 0)
     \<and> props (heap w' 0) = [(''count'', Num 0), (''name'', Str ''x'')]
     \<and> assign_prop False 0 ''count'' (Num 5) (heap w') = Inr (heap w')
     \<and> assign_prop True 0 ''count'' (Num 5) (heap w') = Inl TypeError
     \<and> StoreDefinition_get ''count'' w' = Some (Num 0)
     \<and> assign_prop False 0 ''count'' (Num 5) (heap example_store) \<noteq> Inr (heap example_store)"
proof -
  have facts: "state (storeSnapshot example_store) = 0"
    "props (heap example_store 0) = [(''count'', Num 0), (''name'', Str ''x'')]"
    "StoreDefinition_get ''count'' example_store = Some (Num 0)"
    "\<not> frozen (heap example_store 0)"
    by (simp_all add: example_store_def createStore_def StoreDefinition_get_def
        StoreSnapshot_get_def prop_read_def)
  have live: "assign_prop False 0 ''count'' (Num 5) (heap example_store) \<noteq> Inr (heap example_store)"
    using facts(2,4) by (auto simp: assign_prop_def fun_eq_iff dest!: arg_cong [where f = props])
  show ?thesis
    using getState_freezes_in_place [of "storeSnapshot example_store" example_store] live
    by (auto simp: facts assign_prop_def)
qed

section \<open>Cycles\<close>

lemma invoke_resetting:
  assumes wf: "well_formed w" and field: "StoreDefinition_set k w = Some f"
  shows "invoke (Suc (Suc m)) (resetting k g) [] [] k v w =
     Some (Inr (record_emission (alls w) k
                  (Change \<lparr>change_key = k, previousValue = StoreDefinition_get k w,
                           change_value = v\<rparr>)
                  (record_emission (alls w) k
                     (Change \<lparr>change_key = k,
                              previousValue = StoreDefinition_get k (snd (setter_swap k v w)),
                              change_value = g (Value v)\<rparr>)
                     (onCycle [k, k]
                        (snd (setter_swap k (g (Value v))
                           (record_emission (emitter w) k (Value v)
                              (snd (setter_swap k v w)))))))))"
proof -
  have key: "fn_key f = k" using wf field by (rule key_of_setter)
  define w1 where "w1 = snd (setter_swap k v w)"
  define wa where "wa = record_emission (emitter w) k (Value v) w1"
  define w2 where "w2 = snd (setter_swap k (g (Value v)) wa)"
  have w1: "setters w1 = setters w" "emitter w1 = emitter w" "alls w1 = alls w"
    by (simp_all add: w1_def setter_swap_eq)
  have wa: "setters wa = setters w" "emitter wa = emitter w" "alls wa = alls w"
    by (simp_all add: wa_def record_emission_def w1)
  have get_wa: "StoreDefinition_get k wa = StoreDefinition_get k w1"
    by (simp add: wa_def record_emission_def StoreDefinition_get_def StoreSnapshot_get_def)
  have w2: "emitter w2 = emitter w" "alls w2 = alls w"
    by (simp_all add: w2_def setter_swap_eq wa)
  have field_wa: "StoreDefinition_set k wa = Some f"
    using field by (simp add: StoreDefinition_set_def wa)
  have subs: "field_subs (resetting k g) k = [\<lambda>vis m. [(k, g m)]]" "all_subs (resetting k g) = []"
    by (simp_all add: resetting_def)
  have inner: "invoke (Suc m) (resetting k g) [k] [] k (g (Value v)) wa =
      Some (Inr (record_emission (alls w) k
                  (Change \<lparr>change_key = k, previousValue = StoreDefinition_get k w1,
                           change_value = g (Value v)\<rparr>)
                  (onCycle [k, k] w2)))"
    by (simp add: invoke_unfold [OF field_wa] key wa get_wa w2_def [symmetric] w2
        Emitter_emit_def subs onCycle_def del: invoke.simps)
  have alls_inner: "alls (record_emission (alls w) k c (onCycle [k, k] w2)) = alls w" for c
    by (simp add: record_emission_def onCycle_def w2)
  show ?thesis
    using inner
    by (simp add: invoke_unfold [OF field] key Emitter_emit_def subs run_handler_def
        w1_def [symmetric] wa_def [symmetric] w2_def [symmetric] alls_inner del: invoke.simps)
qed

text \<open>
  C7. With the emitter as the spec describes it, setter calls never nest without bound:
  for every set of subscribers, a call \<^verbatim>\<open>set(k)(v)\<close> returns within nesting depth
  \<open>2 * number of fields + 1\<close>, and it returns without an exception when the handlers
  only set fields. An \<^verbatim>\<open>emit\<close> on a topic that is on the emitter's chain writes the
  diagnostic with the whole chain through \<^verbatim>\<open>onCycle\<close>, delivers nothing and raises
  nothing. For a handler of \<open>k\<close> that answers by \<^verbatim>\<open>set(k)\<close>, depth 2 is enough: one
  diagnostic \<open>k -> k\<close> is written, the per-field channel carries the first value only,
  and the store holds the value of the second call (for \<open>k\<close> other than \<^verbatim>\<open>__proto__\<close>).
\<close>

theorem cyclic_set_is_cut:
  fixes w :: "'v world"
  assumes "well_formed w" and "StoreDefinition_set k w = Some f"
    and "2 * length (setters w) < n"
  shows "(\<exists>r. invoke n S [] [] k v w = Some r)
       \<and> (sets_only_fields S w \<longrightarrow> (\<exists>w'. invoke n S [] [] k v w = Some (Inr w')))
       \<and> (\<forall>store_set callChain subs e m (u :: 'v world). k \<in> set callChain \<longrightarrow>
             Emitter_emit store_set callChain subs e k m u
               = Some (Inr (u\<lparr>console := console u
                                @ [CYCLE_ERROR_MESSAGE @ join '' -> '' (callChain @ [k])]\<rparr>)))
       \<and> (\<forall>d \<ge> 2. \<exists>w'. invoke d (resetting k g) [] [] k v w = Some (Inr w')
             \<and> console w' = console w @ [CYCLE_ERROR_MESSAGE @ k @ '' -> '' @ k]
             \<and> map (\<lambda>e. (topic e, message e))
                  (filter (\<lambda>e. via e = emitter w) (drop (length (trace w)) (trace w')))
                 = [(k, Value v)]
             \<and> (k \<noteq> ''__proto__'' \<longrightarrow> StoreDefinition_get k w' = Some (g (Value v))))"
proof -
  have cut: "Emitter_emit store_set callChain subs e k m u
               = Some (Inr (u\<lparr>console := console u
                                @ [CYCLE_ERROR_MESSAGE @ join '' -> '' (callChain @ [k])]\<rparr>))"
    if "k \<in> set callChain" for store_set callChain subs e m and u :: "'v world"
    using that by (simp add: Emitter_emit_def onCycle_def)
  have twice: "\<exists>w'. invoke d (resetting k g) [] [] k v w = Some (Inr w')
             \<and> console w' = console w @ [CYCLE_ERROR_MESSAGE @ k @ '' -> '' @ k]
             \<and> map (\<lambda>e. (topic e, message e))
                  (filter (\<lambda>e. via e = emitter w) (drop (length (trace w)) (trace w')))
                 = [(k, Value v)]
             \<and> (k \<noteq> ''__proto__'' \<longrightarrow> StoreDefinition_get k w' = Some (g (Value v)))"
    if "2 \<le> d" for d
  proof -
    from that obtain m where d: "d = Suc (Suc m)"
      by (metis Suc_le_D numeral_2_eq_2 Suc_le_mono)
    from assms(1) have apart: "emitter w \<noteq> alls w" by (simp add: well_formed_def)
    define wa where "wa = record_emission (emitter w) k (Value v) (snd (setter_swap k v w))"
    define w2 where "w2 = snd (setter_swap k (g (Value v)) wa)"
    define w' where "w' = record_emission (alls w) k
                  (Change \<lparr>change_key = k, previousValue = StoreDefinition_get k w,
                           change_value = v\<rparr>)
                  (record_emission (alls w) k
                     (Change \<lparr>change_key = k,
                              previousValue = StoreDefinition_get k (snd (setter_swap k v w)),
                              change_value = g (Value v)\<rparr>)
                     (onCycle [k, k] w2))"
    have run: "invoke d (resetting k g) [] [] k v w = Some (Inr w')"
      unfolding d invoke_resetting [OF assms(1,2)] by (simp add: w'_def w2_def wa_def)
    have "console wa = console w" "trace wa = trace w
        @ [\<lparr>via = emitter w, topic = k, message = Value v,
            visible = props (new_state k v w)\<rparr>]"
      by (simp_all add: wa_def record_emission_def setter_swap_eq)
    then have w2: "console w2 = console w" "trace w2 = trace w
        @ [\<lparr>via = emitter w, topic = k, message = Value v,
            visible = props (new_state k v w)\<rparr>]"
      by (simp_all add: w2_def console_swap trace_swap)
    have console: "console w' = console w @ [CYCLE_ERROR_MESSAGE @ k @ '' -> '' @ k]"
      by (simp add: w'_def record_emission_def onCycle_def w2)
    have "\<exists>vis1 vis2 c1 c2. trace w' = trace w
        @ [\<lparr>via = emitter w, topic = k, message = Value v, visible = props (new_state k v w)\<rparr>,
           \<lparr>via = alls w, topic = k, message = c1, visible = vis1\<rparr>,
           \<lparr>via = alls w, topic = k, message = c2, visible = vis2\<rparr>]"
      by (simp add: w'_def record_emission_def onCycle_def w2)
    then have once: "map (\<lambda>e. (topic e, message e))
                  (filter (\<lambda>e. via e = emitter w) (drop (length (trace w)) (trace w')))
                 = [(k, Value v)]"
      using apart by auto
    have "proper (heap wa (state (storeSnapshot wa)))"
      by (simp add: wa_def record_emission_def setter_swap_eq proper_new_state)
    then have "StoreDefinition_get k w2
        = (if k = ''__proto__'' then None else Some (g (Value v)))"
      unfolding w2_def by (simp add: get_swap)
    moreover have "StoreDefinition_get k w' = StoreDefinition_get k w2"
      by (simp add: w'_def record_emission_def onCycle_def StoreDefinition_get_def
          StoreSnapshot_get_def)
    ultimately have held: "k \<noteq> ''__proto__'' \<longrightarrow> StoreDefinition_get k w' = Some (g (Value v))"
      by simp
    show ?thesis by (intro exI [of _ w'] conjI) (fact run console once held)+
  qed
  show ?thesis
    using invoke_returns [OF assms(3,2), of S "[]" "[]" v] cut twice by blast
qed

theorem cyclic_set_is_cut_witness:
  "well_formed example_store
   \<and> StoreDefinition_set ''count'' example_store = Some \<lparr>fn_ref = 4, fn_key = ''count''\<rparr>
   \<and> 2 * length (setters example_store) < 5
   \<and> ''count'' \<noteq> ''__proto__''
   \<and> sets_only_fields (resetting ''count'' plus_one) example_store
   \<and> (\<exists>w'. invoke 5 (resetting ''count'' plus_one) [] [] ''count'' (Num 1) example_store
              = Some (Inr w')
          \<and> console w' = [CYCLE_ERROR_MESSAGE @ ''count -> count'']
          \<and> map (\<lambda>e. (topic e, message e)) (filter (\<lambda>e. via e = 2) (trace w'))
              = [(''count'', Value (Num 1))]
          \<and> StoreDefinition_get ''count'' w' = Some (Num 2))
   \<and> (2::nat) \<le> 2
   \<and> (\<exists>w'. invoke 2 (resetting ''count'' plus_one) [] [] ''count'' (Num 1) example_store
              = Some (Inr w')
          \<and> console w' = [CYCLE_ERROR_MESSAGE @ ''count -> count''])
   \<and> ''count'' \<in> set [''name'', ''count'']
   \<and> Emitter_emit (\<lambda>ch k v w. None) [''name'', ''count''] [\<lambda>vis m. [(''count'', Num 9)]] 2
        ''count'' (Value (Num 1)) example_store
       = Some (Inr (example_store\<lparr>console := [CYCLE_ERROR_MESSAGE @ ''name -> count -> count'']\<rparr>))"
proof -
  have size: "2 * length (setters example_store) < 5"
    by (simp add: example_store_def createStore_def)
  have tame: "sets_only_fields (resetting ''count'' plus_one) example_store"
    by (simp add: sets_only_fields_def resetting_def count_setter_example)
  have start: "console example_store = []" "trace example_store = []" "emitter example_store = 2"
    by (simp_all add: example_store_def createStore_def)
  note main = cyclic_set_is_cut [OF well_formed_example count_setter_example size,
      of "resetting ''count'' plus_one" "Num 1" plus_one]
  from main have five: "\<exists>w'. invoke 5 (resetting ''count'' plus_one) [] [] ''count'' (Num 1) example_store
              = Some (Inr w')
          \<and> console w' = console example_store @ [CYCLE_ERROR_MESSAGE @ ''count'' @ '' -> '' @ ''count'']
          \<and> map (\<lambda>e. (topic e, message e))
               (filter (\<lambda>e. via e = emitter example_store)
                  (drop (length (trace example_store)) (trace w')))
              = [(''count'', Value (Num 1))]
          \<and> StoreDefinition_get ''count'' w' = Some (plus_one (Value (Num 1)))"
    by simp
  from main have two: "\<exists>w'. invoke 2 (resetting ''count'' plus_one) [] [] ''count'' (Num 1) example_store
              = Some (Inr w')
          \<and> console w' = console example_store @ [CYCLE_ERROR_MESSAGE @ ''count'' @ '' -> '' @ ''count'']
          \<and> map (\<lambda>e. (topic e, message e))
               (filter (\<lambda>e. via e = emitter example_store)
                  (drop (length (trace example_store)) (trace w')))
              = [(''count'', Value (Num 1))]
          \<and> StoreDefinition_get ''count'' w' = Some (plus_one (Value (Num 1)))"
    by simp
  from main have cut: "Emitter_emit (\<lambda>ch k v w. None) [''name'', ''count'']
        [\<lambda>vis m. [(''count'', Num 9)]] 2 ''count'' (Value (Num 1)) example_store
       = Some (Inr (example_store\<lparr>console := console example_store
            @ [CYCLE_ERROR_MESSAGE @ join '' -> '' ([''name'', ''count''] @ [''count''])]\<rparr>))"
    by simp
  show ?thesis
    using well_formed_example count_setter_example size tame five two cut
    by (simp add: start plus_one_def) blast
qed

end
